theory Spec2Isabelle
  imports Main "HOL-Library.AList"
begin

section \<open>The disjoint-set structure of \<^verbatim>\<open>src/analyze.py\<close>\<close>

text \<open>
  Python dictionaries keep their keys in insertion order, and an assignment to an existing
  key keeps its position, which is what \<^const>\<open>AList.update\<close> does on an association
  list. Identifiers and ranks are Python integers.
\<close>

datatype error = RecursionError | KeyError | ValueError | RuntimeError

record UnionFind =
  parent :: "(int \<times> int) list"
  rank :: "(int \<times> int) list"

definition UnionFind_init :: UnionFind where
  "UnionFind_init = \<lparr>parent = [], rank = []\<rparr>"

text \<open>
  \<^verbatim>\<open>UnionFind.find\<close>. The recursion follows parent links, so on a cyclic parent
  dictionary it does not return a value: the result \<open>None\<close> stands for that. The
  recursion limit of the interpreter is not part of the model; with union by rank the
  depth of the recursion stays logarithmic in the number of identifiers.
\<close>

partial_function (option) find :: "int \<Rightarrow> UnionFind \<Rightarrow> (int \<times> UnionFind) option" where
  "find x uf =
     (let uf1 = (if x \<notin> fst ` set (parent uf)
                 then uf\<lparr>parent := AList.update x x (parent uf),
                         rank := AList.update x 0 (rank uf)\<rparr>
                 else uf)
      in case map_of (parent uf1) x of
           None \<Rightarrow> None
         | Some p \<Rightarrow>
             if p \<noteq> x
             then Option.bind (find p uf1) (\<lambda>(r, uf2).
                    let uf3 = uf2\<lparr>parent := AList.update x r (parent uf2)\<rparr>
                    in (case map_of (parent uf3) x of
                          None \<Rightarrow> None
                        | Some q \<Rightarrow> Some (q, uf3)))
             else Some (p, uf1))"

declare find.simps [code]

text \<open>
  \<^verbatim>\<open>UnionFind.union\<close>. A rank lookup of a key the rank dictionary lacks is a
  \<open>KeyError\<close>; a \<open>find\<close> that does not return is reported as \<open>RecursionError\<close>.
\<close>

definition union :: "int \<Rightarrow> int \<Rightarrow> UnionFind \<Rightarrow> error + UnionFind" where
  "union x y uf =
     (case find x uf of
        None \<Rightarrow> Inl RecursionError
      | Some (root_x, uf1) \<Rightarrow>
          (case find y uf1 of
             None \<Rightarrow> Inl RecursionError
           | Some (root_y, uf2) \<Rightarrow>
               if root_x = root_y then Inr uf2
               else (case (map_of (rank uf2) root_x, map_of (rank uf2) root_y) of
                       (Some rx, Some ry) \<Rightarrow>
                         let (root_x', root_y') =
                               (if rx < ry then (root_y, root_x) else (root_x, root_y));
                             uf3 = uf2\<lparr>parent := AList.update root_y' root_x' (parent uf2)\<rparr>
                         in (case (map_of (rank uf3) root_x', map_of (rank uf3) root_y') of
                               (Some rx', Some ry') \<Rightarrow>
                                 if rx' = ry'
                                 then Inr (uf3\<lparr>rank := AList.update root_x' (rx' + 1) (rank uf3)\<rparr>)
                                 else Inr uf3
                             | _ \<Rightarrow> Inl KeyError)
                     | _ \<Rightarrow> Inl KeyError)))"

text \<open>
  \<^verbatim>\<open>UnionFind.get_groups\<close>. The loop runs over the keys of \<open>self.parent\<close> while
  \<open>find\<close> assigns to that dictionary; Python raises \<open>RuntimeError\<close> when the number of
  keys changes during the iteration. A group is a Python set of identifiers.
\<close>

fun get_groups_loop ::
  "int list \<Rightarrow> (int \<times> int set) list \<Rightarrow> UnionFind \<Rightarrow> error + ((int \<times> int set) list \<times> UnionFind)"
where
  "get_groups_loop [] groups uf = Inr (groups, uf)"
| "get_groups_loop (x # xs) groups uf =
     (case find x uf of
        None \<Rightarrow> Inl RecursionError
      | Some (root, uf') \<Rightarrow>
          if length (parent uf') \<noteq> length (parent uf) then Inl RuntimeError
          else get_groups_loop xs
                 (AList.update root
                    (insert x (case map_of groups root of None \<Rightarrow> {} | Some members \<Rightarrow> members))
                    groups)
                 uf')"

definition get_groups :: "UnionFind \<Rightarrow> error + ((int \<times> int set) list \<times> UnionFind)" where
  "get_groups uf = get_groups_loop (map fst (parent uf)) [] uf"

subsection \<open>Sequences of calls on a fresh structure\<close>

datatype uf_call = Find int | Union int int

fun run_call :: "uf_call \<Rightarrow> UnionFind \<Rightarrow> error + UnionFind" where
  "run_call (Find x) uf =
     (case find x uf of None \<Rightarrow> Inl RecursionError | Some (r, uf') \<Rightarrow> Inr uf')"
| "run_call (Union x y) uf = union x y uf"

fun run_calls :: "uf_call list \<Rightarrow> UnionFind \<Rightarrow> error + UnionFind" where
  "run_calls [] uf = Inr uf"
| "run_calls (c # cs) uf =
     (case run_call c uf of Inl e \<Rightarrow> Inl e | Inr uf' \<Rightarrow> run_calls cs uf')"

fun union_pairs :: "uf_call list \<Rightarrow> (int \<times> int) set" where
  "union_pairs [] = {}"
| "union_pairs (Find x # cs) = union_pairs cs"
| "union_pairs (Union x y # cs) = insert (x, y) (union_pairs cs)"

text \<open>The test \<^verbatim>\<open>uf.find(x) == uf.find(y)\<close>, the calls made from left to right.\<close>

definition same_root :: "UnionFind \<Rightarrow> int \<Rightarrow> int \<Rightarrow> bool" where
  "same_root uf x y =
     (case find x uf of
        None \<Rightarrow> False
      | Some (root_x, uf1) \<Rightarrow>
          (case find y uf1 of
             None \<Rightarrow> False
           | Some (root_y, uf2) \<Rightarrow> root_x = root_y))"

section \<open>User deduplication\<close>

text \<open>
  A row of \<open>users_df\<close>: the identifier and the four normalized columns. A cell is
  \<open>None\<close> when it is missing (\<open>None\<close> or NaN), otherwise a string. The test
  \<^verbatim>\<open>pd.notna(v) and v\<close> of the indexing loop and the test \<^verbatim>\<open>v1 and v2\<close> of the
  matching loop both hold exactly for a non-empty string: a NaN cell passes the second test
  but is never equal to anything, so it is never counted.
\<close>

record user_row =
  row_id :: int
  email_normalized :: "string option"
  phone_normalized :: "string option"
  name_normalized :: "string option"
  address_normalized :: "string option"

text \<open>The dictionary stored in \<open>user_data\<close> for one identifier.\<close>

record user_fields =
  email :: "string option"
  phone :: "string option"
  name :: "string option"
  address :: "string option"

definition truthy :: "string option \<Rightarrow> bool" where
  "truthy v = (case v of None \<Rightarrow> False | Some s \<Rightarrow> s \<noteq> [])"

text \<open>Step 1: \<^verbatim>\<open>for uid in users_df['id']: uf.find(uid)\<close>.\<close>

fun register_ids :: "int list \<Rightarrow> UnionFind \<Rightarrow> error + UnionFind" where
  "register_ids [] uf = Inr uf"
| "register_ids (uid # uids) uf =
     (case find uid uf of
        None \<Rightarrow> Inl RecursionError
      | Some (r, uf') \<Rightarrow> register_ids uids uf')"

text \<open>
  Step 2: one \<open>defaultdict(list)\<close> per column. The source fills the four indexes in
  one loop over the rows; they do not depend on each other, so each is a fold of its own.
\<close>

definition index_add ::
  "string option \<Rightarrow> int \<Rightarrow> (string \<times> int list) list \<Rightarrow> (string \<times> int list) list" where
  "index_add v uid idx =
     (case v of
        None \<Rightarrow> idx
      | Some s \<Rightarrow>
          if s = [] then idx
          else AList.update s
                 ((case map_of idx s of None \<Rightarrow> [] | Some users_list \<Rightarrow> users_list) @ [uid])
                 idx)"

definition build_index ::
  "(user_row \<Rightarrow> string option) \<Rightarrow> user_row list \<Rightarrow> (string \<times> int list) list" where
  "build_index col users_df = fold (\<lambda>row idx. index_add (col row) (row_id row) idx) users_df []"

text \<open>Step 3: \<open>user_data\<close>; a later row with the same identifier overwrites an earlier one.\<close>

definition user_data :: "user_row list \<Rightarrow> (int \<rightharpoonup> user_fields)" where
  "user_data users_df =
     fold (\<lambda>row m. m(row_id row \<mapsto>
                      \<lparr>email = email_normalized row, phone = phone_normalized row,
                       name = name_normalized row, address = address_normalized row\<rparr>))
          users_df Map.empty"

text \<open>
  Step 4: the pairs added to \<open>potential_pairs\<close>, in the order of the \<open>add\<close> calls, and
  the resulting Python set.
\<close>

fun pairs_of :: "int list \<Rightarrow> (int \<times> int) list" where
  "pairs_of [] = []"
| "pairs_of (u1 # rest) = map (\<lambda>u2. (min u1 u2, max u1 u2)) rest @ pairs_of rest"

definition pairs_in_index :: "(string \<times> int list) list \<Rightarrow> (int \<times> int) list" where
  "pairs_in_index idx =
     concat (map (\<lambda>users_list. if length users_list > 1 then pairs_of users_list else [])
                 (map snd idx))"

definition added_pairs :: "user_row list \<Rightarrow> (int \<times> int) list" where
  "added_pairs users_df =
     pairs_in_index (build_index email_normalized users_df) @
     pairs_in_index (build_index phone_normalized users_df) @
     pairs_in_index (build_index name_normalized users_df) @
     pairs_in_index (build_index address_normalized users_df)"

definition potential_pairs :: "user_row list \<Rightarrow> (int \<times> int) set" where
  "potential_pairs users_df = set (added_pairs users_df)"

text \<open>
  Step 5. \<open>count_matches\<close> is the inner loop over the four field names, \<open>same_person\<close>
  the test \<^verbatim>\<open>matches >= 3\<close>.
\<close>

definition count_matches :: "user_fields \<Rightarrow> user_fields \<Rightarrow> nat" where
  "count_matches d1 d2 =
     fold (\<lambda>field matches.
             let v1 = field d1; v2 = field d2
             in if truthy v1 \<and> truthy v2
                then (if v1 = v2 then matches + 1 else matches)
                else matches)
          [email, phone, name, address] 0"

definition same_person :: "user_fields \<Rightarrow> user_fields \<Rightarrow> bool" where
  "same_person d1 d2 = (count_matches d1 d2 \<ge> 3)"

fun match_loop ::
  "(int \<rightharpoonup> user_fields) \<Rightarrow> (int \<times> int) list \<Rightarrow> UnionFind \<Rightarrow> error + UnionFind" where
  "match_loop ud [] uf = Inr uf"
| "match_loop ud ((u1, u2) # ps) uf =
     (case ud u1 of
        None \<Rightarrow> Inl KeyError
      | Some d1 \<Rightarrow>
          (case ud u2 of
             None \<Rightarrow> Inl KeyError
           | Some d2 \<Rightarrow>
               if same_person d1 d2
               then (case union u1 u2 uf of
                       Inl e \<Rightarrow> Inl e
                     | Inr uf' \<Rightarrow> match_loop ud ps uf')
               else match_loop ud ps uf))"

text \<open>
  Step 6: the dictionary comprehension over \<open>groups.values()\<close>. \<open>min\<close> of an empty
  set raises \<open>ValueError\<close>.
\<close>

fun make_user_groups ::
  "int set list \<Rightarrow> (int \<times> int list) list \<Rightarrow> error + (int \<times> int list) list" where
  "make_user_groups [] acc = Inr acc"
| "make_user_groups (members # rest) acc =
     (if members = {} then Inl ValueError
      else make_user_groups rest
             (AList.update (Min members) (sorted_list_of_set members) acc))"

text \<open>
  Python does not fix the order in which a \<open>for\<close> loop visits a set. The first argument
  is the order in which the loop of step 5 visits \<open>potential_pairs\<close>: any list without
  repetition whose elements are those of the set.
\<close>

definition visits :: "(int \<times> int) list \<Rightarrow> (int \<times> int) set \<Rightarrow> bool" where
  "visits order S = (distinct order \<and> set order = S)"

definition deduplicate_users ::
  "(int \<times> int) list \<Rightarrow> user_row list \<Rightarrow> error + (nat \<times> (int \<times> int list) list)" where
  "deduplicate_users order users_df =
     (case register_ids (map row_id users_df) UnionFind_init of
        Inl e \<Rightarrow> Inl e
      | Inr uf0 \<Rightarrow>
          (case match_loop (user_data users_df) order uf0 of
             Inl e \<Rightarrow> Inl e
           | Inr uf1 \<Rightarrow>
               (case get_groups uf1 of
                  Inl e \<Rightarrow> Inl e
                | Inr (groups, uf2) \<Rightarrow>
                    (case make_user_groups (map snd groups) [] of
                       Inl e \<Rightarrow> Inl e
                     | Inr user_groups \<Rightarrow> Inr (length groups, user_groups)))))"

section \<open>Invariant and representatives\<close>

text \<open>
  The parent dictionary as a map, and the rank of an identifier (0 when it has none).
\<close>

definition pmap :: "UnionFind \<Rightarrow> (int \<rightharpoonup> int)" where
  "pmap uf = map_of (parent uf)"

definition rk :: "UnionFind \<Rightarrow> int \<Rightarrow> int" where
  "rk uf x = (case map_of (rank uf) x of None \<Rightarrow> 0 | Some r \<Rightarrow> r)"

text \<open>
  The invariant of the structure: the keys of \<open>parent\<close> are distinct, \<open>rank\<close> has the same
  keys, every parent is itself a key, and the rank strictly grows along every parent link
  that is not the self-loop of a root.
\<close>

definition uf_inv :: "UnionFind \<Rightarrow> bool" where
  "uf_inv uf =
     (distinct (map fst (parent uf)) \<and>
      fst ` set (rank uf) = fst ` set (parent uf) \<and>
      (\<forall>x y. pmap uf x = Some y \<longrightarrow> y \<in> dom (pmap uf) \<and> (y \<noteq> x \<longrightarrow> rk uf x < rk uf y)))"

text \<open>
  The representative of an identifier: the root that the parent links lead to; an
  identifier that is no key represents itself, as \<open>find\<close> makes it its own root.
\<close>

partial_function (option) rep_of :: "(int \<rightharpoonup> int) \<Rightarrow> int \<Rightarrow> int option" where
  "rep_of p x = (case p x of None \<Rightarrow> Some x | Some y \<Rightarrow> if y = x then Some x else rep_of p y)"

text \<open>
  What \<open>find x\<close> establishes when it returns \<open>r\<close> and the state \<open>uf'\<close>: the invariant
  holds, ranks and representatives are unchanged, the only key that can be new is \<open>x\<close>,
  \<open>r\<close> is the representative of \<open>x\<close> and a root, and \<open>x\<close> now points to it.
\<close>

definition find_post :: "UnionFind \<Rightarrow> int \<Rightarrow> int \<Rightarrow> UnionFind \<Rightarrow> bool" where
  "find_post uf x r uf' =
     (uf_inv uf' \<and> rk uf' = rk uf \<and>
      map fst (parent uf') = map fst (parent uf) @ (if x \<in> fst ` set (parent uf) then [] else [x]) \<and>
      (\<forall>z. rep_of (pmap uf') z = rep_of (pmap uf) z) \<and>
      rep_of (pmap uf) x = Some r \<and> pmap uf' r = Some r \<and> pmap uf' x = Some r)"

text \<open>
  The keys of a dictionary after a lookup that creates a missing key.
\<close>

definition add_key :: "int list \<Rightarrow> int \<Rightarrow> int list" where
  "add_key ks x = (if x \<in> set ks then ks else ks @ [x])"

text \<open>
  What \<open>union x y\<close> establishes: the invariant holds, the only keys that can be new are
  \<open>x\<close> and \<open>y\<close>, and the identifiers represented by one of the two roots are now
  represented by the other.
\<close>

definition union_post :: "UnionFind \<Rightarrow> int \<Rightarrow> int \<Rightarrow> UnionFind \<Rightarrow> bool" where
  "union_post uf x y uf' =
     (uf_inv uf' \<and>
      map fst (parent uf') = add_key (add_key (map fst (parent uf)) x) y \<and>
      (\<exists>a b. (rep_of (pmap uf) x = Some a \<and> rep_of (pmap uf) y = Some b \<or>
               rep_of (pmap uf) x = Some b \<and> rep_of (pmap uf) y = Some a) \<and>
             (\<forall>z. rep_of (pmap uf') z =
                    (if rep_of (pmap uf) z = Some b then Some a else rep_of (pmap uf) z))))"

text \<open>
  The reflexive, symmetric and transitive closure of a set of pairs, and the relation
  "has the same representative".
\<close>

definition equiv_closure :: "(int \<times> int) set \<Rightarrow> (int \<times> int) set" where
  "equiv_closure R = (R \<union> R\<inverse>)\<^sup>*"

definition same_rel :: "UnionFind \<Rightarrow> (int \<times> int) set" where
  "same_rel uf = {(x, y). rep_of (pmap uf) x = rep_of (pmap uf) y}"

text \<open>
  The representative as a total function, and the grouping loop of \<open>get_groups\<close> over a
  fixed root function.
\<close>

definition root :: "UnionFind \<Rightarrow> int \<Rightarrow> int" where
  "root uf x = (case rep_of (pmap uf) x of None \<Rightarrow> x | Some r \<Rightarrow> r)"

fun bucket :: "(int \<Rightarrow> int) \<Rightarrow> int list \<Rightarrow> (int \<times> int set) list \<Rightarrow> (int \<times> int set) list" where
  "bucket f [] groups = groups"
| "bucket f (x # xs) groups =
     bucket f xs
       (AList.update (f x)
          (insert x (case map_of groups (f x) of None \<Rightarrow> {} | Some members \<Rightarrow> members))
          groups)"

text \<open>
  The pairs that step 5 merges, and the \<open>union\<close> calls it makes for a list of pairs: both
  records are looked up in \<open>user_data\<close> and compared with \<open>same_person\<close>.
\<close>

definition matched :: "(int \<rightharpoonup> user_fields) \<Rightarrow> int \<times> int \<Rightarrow> bool" where
  "matched ud p =
     (case (ud (fst p), ud (snd p)) of
        (Some d1, Some d2) \<Rightarrow> same_person d1 d2
      | _ \<Rightarrow> False)"

definition union_calls :: "(int \<rightharpoonup> user_fields) \<Rightarrow> (int \<times> int) list \<Rightarrow> uf_call list" where
  "union_calls ud ps = map (\<lambda>(u1, u2). Union u1 u2) (filter (matched ud) ps)"

text \<open>
  The identifiers passed to a list of calls.
\<close>

fun call_ids :: "uf_call list \<Rightarrow> int set" where
  "call_ids [] = {}"
| "call_ids (Find x # cs) = insert x (call_ids cs)"
| "call_ids (Union x y # cs) = insert x (insert y (call_ids cs))"

text \<open>
  The dictionary that \<open>get_groups\<close> returns in a state that satisfies the invariant, and
  the entry that step 6 makes of one group.
\<close>

definition groups_of :: "UnionFind \<Rightarrow> (int \<times> int set) list" where
  "groups_of uf = bucket (root uf) (map fst (parent uf)) []"

definition canonical :: "int set \<Rightarrow> int \<times> int list" where
  "canonical members = (Min members, sorted_list_of_set members)"

text \<open>
  The pairs of elements of a list at positions \<open>i < j\<close>.
\<close>

fun ordered_pairs :: "'a list \<Rightarrow> ('a \<times> 'a) set" where
  "ordered_pairs [] = {}"
| "ordered_pairs (x # xs) = Pair x ` set xs \<union> ordered_pairs xs"

text \<open>
  Two rows share a field when some column holds a present, non-empty value in the first
  row and the same value in the second.
\<close>

definition shares_field :: "user_row \<Rightarrow> user_row \<Rightarrow> bool" where
  "shares_field r1 r2 =
     (\<exists>col \<in> set [email_normalized, phone_normalized, name_normalized, address_normalized].
        truthy (col r1) \<and> col r1 = col r2)"

text \<open>
  The pair as it is stored in \<open>potential_pairs\<close>.
\<close>

definition norm_pair :: "int \<times> int \<Rightarrow> int \<times> int" where
  "norm_pair p = (min (fst p) (snd p), max (fst p) (snd p))"

text \<open>
  The match count in the words of the specification: a field counts when both records
  have a present (non-null, non-empty) value for it and the two values are equal; a field
  is comparable when both records have a present value for it.
\<close>

definition agree :: "string option \<Rightarrow> string option \<Rightarrow> bool" where
  "agree v1 v2 = (v1 \<noteq> None \<and> v1 \<noteq> Some [] \<and> v2 \<noteq> None \<and> v2 \<noteq> Some [] \<and> v1 = v2)"

definition agreeing_fields :: "user_fields \<Rightarrow> user_fields \<Rightarrow> nat" where
  "agreeing_fields d1 d2 =
     length (filter (\<lambda>field. agree (field d1) (field d2)) [email, phone, name, address])"

definition comparable_fields :: "user_fields \<Rightarrow> user_fields \<Rightarrow> nat" where
  "comparable_fields d1 d2 =
     length (filter (\<lambda>field. field d1 \<noteq> None \<and> field d1 \<noteq> Some [] \<and>
                              field d2 \<noteq> None \<and> field d2 \<noteq> Some [])
                    [email, phone, name, address])"

text \<open>
  The mapping that \<open>deduplicate_users\<close> returns, from the final state of the structure.
\<close>

definition user_groups_of :: "UnionFind \<Rightarrow> (int \<times> int list) list" where
  "user_groups_of uf = map canonical (map snd (groups_of uf))"

text \<open>
  The judgement of a pair of identifiers in the words of the specification: at least
  three agreeing fields between their records.
\<close>

definition judged_same :: "(int \<rightharpoonup> user_fields) \<Rightarrow> int \<times> int \<Rightarrow> bool" where
  "judged_same ud p =
     (case (ud (fst p), ud (snd p)) of
        (Some d1, Some d2) \<Rightarrow> 3 \<le> agreeing_fields d1 d2
      | _ \<Rightarrow> False)"

text \<open>
  Test data: the two records of the end-to-end scenario of the specification, which agree
  on email, phone and address, and a third record without any usable field.
\<close>

definition scenario_users :: "user_row list" where
  "scenario_users =
     [\<lparr>row_id = 101, email_normalized = Some ''a@x.com'', phone_normalized = Some ''555'',
       name_normalized = Some ''john'', address_normalized = Some ''1 st''\<rparr>,
      \<lparr>row_id = 102, email_normalized = Some ''a@x.com'', phone_normalized = Some ''555'',
       name_normalized = Some ''jon'', address_normalized = Some ''1 st''\<rparr>,
      \<lparr>row_id = 103, email_normalized = None, phone_normalized = None,
       name_normalized = Some '''', address_normalized = None\<rparr>]"

section \<open>Top customer\<close>

text \<open>
  A row of \<open>orders_df\<close>, as far as \<open>find_top_customer\<close> reads it. The prices are floats;
  their type is left open as \<open>'f\<close>, and the float operations the function uses are taken
  as parameters: the column sum of pandas (\<open>fsum\<close>), Python's \<open>+\<close> on floats (\<open>fadd\<close>),
  the value \<open>float()\<close> (\<open>fzero\<close>), the comparison \<open>a > b\<close> (\<open>fgt\<close>) and \<open>round(x, 2)\<close>
  (\<open>round2\<close>).
\<close>

record 'f order_row =
  user_id :: int
  paid_price :: 'f

record 'f float_ops =
  fsum :: "'f list \<Rightarrow> 'f"
  fadd :: "'f \<Rightarrow> 'f \<Rightarrow> 'f"
  fzero :: 'f
  fgt :: "'f \<Rightarrow> 'f \<Rightarrow> bool"
  round2 :: "'f \<Rightarrow> 'f"

text \<open>
  Step 1: \<^verbatim>\<open>orders_df.groupby('user_id')['paid_price'].sum().to_dict()\<close>. The keys of a
  pandas group-by are sorted; each value is the column sum over the rows of that key, in
  row order.
\<close>

definition user_spending :: "'f float_ops \<Rightarrow> 'f order_row list \<Rightarrow> (int \<times> 'f) list" where
  "user_spending ops orders_df =
     map (\<lambda>uid. (uid, fsum ops (map paid_price (filter (\<lambda>row. user_id row = uid) orders_df))))
         (sorted_list_of_set (set (map user_id orders_df)))"

text \<open>Step 2: the reverse mapping from identifier to canonical identifier.\<close>

definition user_to_canonical :: "(int \<times> int list) list \<Rightarrow> (int \<rightharpoonup> int)" where
  "user_to_canonical user_groups =
     fold (\<lambda>(canonical, members) m. fold (\<lambda>uid m. m(uid \<mapsto> canonical)) members m)
          user_groups Map.empty"

text \<open>Step 3: \<open>canonical_spending\<close>, a \<open>defaultdict(float)\<close>.\<close>

definition canonical_spending ::
  "'f float_ops \<Rightarrow> (int \<rightharpoonup> int) \<Rightarrow> (int \<times> 'f) list \<Rightarrow> (int \<times> 'f) list" where
  "canonical_spending ops utc spending_items =
     fold (\<lambda>(uid, spending) cs.
             let canonical = (case utc uid of None \<Rightarrow> uid | Some c \<Rightarrow> c)
             in AList.update canonical
                  (fadd ops (case map_of cs canonical of None \<Rightarrow> fzero ops | Some v \<Rightarrow> v) spending)
                  cs)
          spending_items []"

text \<open>
  Step 4: \<^verbatim>\<open>max(canonical_spending, key=canonical_spending.get)\<close>. Python's \<open>max\<close> keeps
  the first item and replaces it by a later one whose key is greater; the key of an item
  is the value stored under it, so the loop runs over the items of the dictionary.
\<close>

fun max_loop :: "'f float_ops \<Rightarrow> int \<times> 'f \<Rightarrow> (int \<times> 'f) list \<Rightarrow> int \<times> 'f" where
  "max_loop ops best [] = best"
| "max_loop ops best (item # items) =
     max_loop ops (if fgt ops (snd item) (snd best) then item else best) items"

definition find_top_customer ::
  "'f float_ops \<Rightarrow> 'f order_row list \<Rightarrow> (int \<times> int list) list \<Rightarrow> error + (int list \<times> 'f)" where
  "find_top_customer ops orders_df user_groups =
     (let spending = user_spending ops orders_df;
          utc = user_to_canonical user_groups;
          cs = canonical_spending ops utc spending
      in case cs of
           [] \<Rightarrow> Inl ValueError
         | first # rest \<Rightarrow>
             let top_canonical = fst (max_loop ops first rest)
             in (case map_of cs top_canonical of
                   None \<Rightarrow> Inl KeyError
                 | Some total_spent \<Rightarrow>
                     let all_ids = (case map_of user_groups top_canonical of
                                      None \<Rightarrow> [top_canonical]
                                    | Some members \<Rightarrow> members)
                     in Inr (sort all_ids, round2 ops total_spent)))"

text \<open>Test data: whole amounts, on which float arithmetic is exact and rounding changes nothing.\<close>

definition whole_ops :: "int float_ops" where
  "whole_ops = \<lparr>fsum = sum_list, fadd = (+), fzero = 0, fgt = (\<lambda>a b. a > b), round2 = (\<lambda>x. x)\<rparr>"

text \<open>
  Top-customer resolution in the words of the specification: the canonical identifier of
  an identifier is the key of the group holding it, or the identifier itself when no group
  holds it (were an identifier in several groups, the last one would count); the spending
  of a canonical identifier adds up, from zero, the per-identifier sums of the identifiers
  it stands for; the members of a canonical identifier are its group, or the identifier
  alone when it is no key.
\<close>

primrec group_of_id :: "(int \<times> int list) list \<Rightarrow> int \<Rightarrow> int option" where
  "group_of_id [] uid = None"
| "group_of_id (g # gs) uid =
     (case group_of_id gs uid of
        Some c \<Rightarrow> Some c
      | None \<Rightarrow> if uid \<in> set (snd g) then Some (fst g) else None)"

definition canonical_of :: "(int \<times> int list) list \<Rightarrow> int \<Rightarrow> int" where
  "canonical_of user_groups uid = (case group_of_id user_groups uid of None \<Rightarrow> uid | Some c \<Rightarrow> c)"

definition aggregated ::
  "'f float_ops \<Rightarrow> 'f order_row list \<Rightarrow> (int \<times> int list) list \<Rightarrow> int \<Rightarrow> 'f" where
  "aggregated ops orders_df user_groups c =
     fold (\<lambda>item acc. fadd ops acc (snd item))
          (filter (\<lambda>item. canonical_of user_groups (fst item) = c) (user_spending ops orders_df))
          (fzero ops)"

definition group_members :: "(int \<times> int list) list \<Rightarrow> int \<Rightarrow> int list" where
  "group_members user_groups c = (case map_of user_groups c of None \<Rightarrow> [c] | Some members \<Rightarrow> members)"

section \<open>Correctness of the disjoint-set structure\<close>

lemma dom_pmap: "dom (pmap uf) = fst ` set (parent uf)"
  by (simp add: pmap_def dom_map_of_conv_image_fst)

lemma rep_of_unseen: "p x = None \<Longrightarrow> rep_of p x = Some x"
  by (subst rep_of.simps) simp

lemma rep_of_root: "p x = Some x \<Longrightarrow> rep_of p x = Some x"
  by (subst rep_of.simps) simp

lemma rep_of_step: "p x = Some y \<Longrightarrow> y \<noteq> x \<Longrightarrow> rep_of p x = rep_of p y"
  by (subst rep_of.simps) simp

text \<open>Induction along parent links, justified by the ranks.\<close>

lemma uf_induct [consumes 1, case_names unseen root step]:
  assumes inv: "uf_inv uf"
    and unseen: "\<And>x. pmap uf x = None \<Longrightarrow> P x"
    and root: "\<And>x. pmap uf x = Some x \<Longrightarrow> P x"
    and step: "\<And>x y. pmap uf x = Some y \<Longrightarrow> y \<noteq> x \<Longrightarrow> P y \<Longrightarrow> P x"
  shows "P x"
proof -
  define D where "D = fst ` set (parent uf)"
  define M where "M = Max (rk uf ` D)"
  have fin: "finite (rk uf ` D)" by (simp add: D_def)
  have bound: "rk uf y \<le> M" if "y \<in> D" for y
    unfolding M_def using fin that by (simp add: Max_ge)
  show ?thesis
  proof (induction "nat (M - rk uf x)" arbitrary: x rule: less_induct)
    case less
    show ?case
    proof (cases "pmap uf x")
      case None
      then show ?thesis by (rule unseen)
    next
      case (Some y)
      show ?thesis
      proof (cases "y = x")
        case True
        with Some show ?thesis by (simp add: root)
      next
        case False
        from inv Some False have yD: "y \<in> D" and lt: "rk uf x < rk uf y"
          unfolding uf_inv_def D_def dom_pmap [symmetric] by blast+
        from bound [OF yD] lt have "nat (M - rk uf y) < nat (M - rk uf x)" by simp
        then have "P y" by (rule less)
        with Some False show ?thesis by (rule step)
      qed
    qed
  qed
qed

lemma rep_of_total:
  assumes "uf_inv uf"
  shows "\<exists>r. rep_of (pmap uf) x = Some r \<and> (pmap uf r = Some r \<or> (pmap uf x = None \<and> r = x))
            \<and> rk uf x \<le> rk uf r"
  using assms
proof (induction x rule: uf_induct)
  case (unseen x)
  then show ?case by (simp add: rep_of_unseen)
next
  case (root x)
  then show ?case by (simp add: rep_of_root)
next
  case (step x y)
  from assms step(1,2) have "rk uf x < rk uf y" and "pmap uf y \<noteq> None"
    unfolding uf_inv_def by blast+
  with step show ?case by (auto simp: rep_of_step)
qed

lemma rep_of_ex: "uf_inv uf \<Longrightarrow> \<exists>r. rep_of (pmap uf) x = Some r"
  using rep_of_total by blast

lemma rep_of_is_root:
  "uf_inv uf \<Longrightarrow> rep_of (pmap uf) x = Some r \<Longrightarrow> pmap uf x \<noteq> None \<Longrightarrow> pmap uf r = Some r"
  using rep_of_total [of uf x] by auto

lemma rep_of_rank: "uf_inv uf \<Longrightarrow> rep_of (pmap uf) x = Some r \<Longrightarrow> rk uf x \<le> rk uf r"
  using rep_of_total [of uf x] by auto

lemma rep_of_seen:
  "rep_of (pmap uf) x = Some r \<Longrightarrow> pmap uf r = Some r \<Longrightarrow> pmap uf x \<noteq> None"
  by (cases "pmap uf x") (auto simp: rep_of_unseen)

lemma rep_of_compress_gen:
  assumes inv: "uf_inv uf" and rx: "rep_of (pmap uf) x = Some r" and rr: "pmap uf r = Some r"
    and px: "p' x = Some r" and other: "\<And>z. z \<noteq> x \<Longrightarrow> p' z = pmap uf z"
  shows "rep_of p' z = rep_of (pmap uf) z"
  using inv
proof (induction z rule: uf_induct)
  case (unseen z)
  from rep_of_seen [OF rx rr] unseen have "z \<noteq> x" by auto
  with unseen other show ?case by (simp add: rep_of_unseen)
next
  case (root z)
  show ?case
  proof (cases "z = x")
    case True
    with root rx have "r = x" by (simp add: rep_of_root)
    with True root px show ?thesis by (simp add: rep_of_root)
  next
    case False
    with root other show ?thesis by (simp add: rep_of_root)
  qed
next
  case (step z w)
  show ?case
  proof (cases "z = x")
    case True
    show ?thesis
    proof (cases "r = x")
      case True
      with \<open>z = x\<close> rx px show ?thesis by (simp add: rep_of_root)
    next
      case False
      then have "rep_of p' x = rep_of p' r"
        using px by (simp add: rep_of_step)
      also have "\<dots> = Some r" using False rr other by (simp add: rep_of_root)
      finally show ?thesis using True rx by simp
    qed
  next
    case False
    with step other have "rep_of p' z = rep_of p' w"
      by (simp add: rep_of_step)
    with step show ?thesis by (simp add: rep_of_step)
  qed
qed

lemma rep_of_compress:
  assumes inv: "uf_inv uf" and rx: "rep_of (pmap uf) x = Some r" and rr: "pmap uf r = Some r"
  shows "rep_of ((pmap uf)(x \<mapsto> r)) z = rep_of (pmap uf) z"
  by (rule rep_of_compress_gen [OF inv rx rr]) simp_all

lemma rep_of_fresh_gen:
  assumes inv: "uf_inv uf" and new: "pmap uf x = None"
    and px: "p' x = Some x" and other: "\<And>z. z \<noteq> x \<Longrightarrow> p' z = pmap uf z"
  shows "rep_of p' z = rep_of (pmap uf) z"
  using inv
proof (induction z rule: uf_induct)
  case (unseen z)
  then show ?case using px other new by (cases "z = x") (simp_all add: rep_of_unseen rep_of_root)
next
  case (root z)
  with new have "z \<noteq> x" by auto
  with root other show ?case by (simp add: rep_of_root)
next
  case (step z w)
  with new have "z \<noteq> x" by auto
  with step other have "rep_of p' z = rep_of p' w"
    by (simp add: rep_of_step)
  with step show ?case by (simp add: rep_of_step)
qed

lemma rep_of_fresh:
  assumes inv: "uf_inv uf" and new: "pmap uf x = None"
  shows "rep_of ((pmap uf)(x \<mapsto> x)) z = rep_of (pmap uf) z"
  by (rule rep_of_fresh_gen [OF inv new]) simp_all

lemma pmap_update [simp]:
  "pmap (uf\<lparr>parent := AList.update k v (parent uf)\<rparr>) = (pmap uf)(k \<mapsto> v)"
  by (simp add: pmap_def update_conv')

lemma rk_parent_update [simp]: "rk (uf\<lparr>parent := ps\<rparr>) = rk uf"
  by (simp add: rk_def fun_eq_iff)

lemma uf_inv_compress:
  assumes inv: "uf_inv uf" and rx: "rep_of (pmap uf) x = Some r" and rr: "pmap uf r = Some r"
  shows "uf_inv (uf\<lparr>parent := AList.update x r (parent uf)\<rparr>)"
proof -
  have xs: "x \<in> fst ` set (parent uf)"
    using rep_of_seen [OF rx rr] by (auto simp: dom_pmap [symmetric])
  have rkx: "r \<noteq> x \<Longrightarrow> rk uf x < rk uf r"
  proof -
    assume ne: "r \<noteq> x"
    from xs obtain y where y: "pmap uf x = Some y" by (auto simp: dom_pmap [symmetric])
    with ne rx have "y \<noteq> x" by (auto simp: rep_of_root)
    with y inv have lt: "rk uf x < rk uf y" unfolding uf_inv_def by blast
    from y \<open>y \<noteq> x\<close> rx have "rep_of (pmap uf) y = Some r" by (simp add: rep_of_step)
    from rep_of_rank [OF inv this] lt show ?thesis by simp
  qed
  show ?thesis
    unfolding uf_inv_def
  proof (intro conjI allI impI)
    show "distinct (map fst (parent (uf\<lparr>parent := AList.update x r (parent uf)\<rparr>)))"
      using inv by (simp add: uf_inv_def distinct_update)
    show "fst ` set (rank (uf\<lparr>parent := AList.update x r (parent uf)\<rparr>)) =
          fst ` set (parent (uf\<lparr>parent := AList.update x r (parent uf)\<rparr>))"
      using inv xs by (auto simp: uf_inv_def dom_update [unfolded dom_map_of_conv_image_fst] update_keys)
  next
    fix a b assume ab: "pmap (uf\<lparr>parent := AList.update x r (parent uf)\<rparr>) a = Some b"
    show "b \<in> dom (pmap (uf\<lparr>parent := AList.update x r (parent uf)\<rparr>))"
      using ab inv rr by (auto simp: uf_inv_def split: if_splits)
  next
    fix a b assume ab: "pmap (uf\<lparr>parent := AList.update x r (parent uf)\<rparr>) a = Some b"
      and ne: "b \<noteq> a"
    show "rk (uf\<lparr>parent := AList.update x r (parent uf)\<rparr>) a
            < rk (uf\<lparr>parent := AList.update x r (parent uf)\<rparr>) b"
      using ab ne inv rkx by (auto simp: uf_inv_def split: if_splits)
  qed
qed

lemma find_seen:
  assumes inv: "uf_inv uf"
  shows "pmap uf x \<noteq> None \<longrightarrow> (\<exists>r uf'. find x uf = Some (r, uf') \<and> find_post uf x r uf')"
  using inv
proof (induction x rule: uf_induct)
  case (unseen x)
  then show ?case by simp
next
  case (root x)
  then have xs: "x \<in> fst ` set (parent uf)" by (auto simp: dom_pmap [symmetric])
  from root have "find x uf = Some (x, uf)"
    by (subst find.simps) (simp add: xs pmap_def)
  moreover have "find_post uf x x uf"
    using inv root xs by (simp add: find_post_def rep_of_root)
  ultimately show ?case by blast
next
  case (step x y)
  then have xs: "x \<in> fst ` set (parent uf)" by (auto simp: dom_pmap [symmetric])
  from inv step(1) have "pmap uf y \<noteq> None" unfolding uf_inv_def by blast
  with step(3) obtain r uf2 where f: "find y uf = Some (r, uf2)" and post: "find_post uf y r uf2"
    by blast
  let ?uf3 = "uf2\<lparr>parent := AList.update x r (parent uf2)\<rparr>"
  have fx: "find x uf = Some (r, ?uf3)"
    using step(1,2) f by (subst find.simps) (simp add: xs pmap_def update_conv')
  from post have inv2: "uf_inv uf2" and rk2: "rk uf2 = rk uf"
    and keys2: "map fst (parent uf2) = map fst (parent uf)"
    and rep2: "\<And>z. rep_of (pmap uf2) z = rep_of (pmap uf) z"
    and ry: "rep_of (pmap uf) y = Some r" and rr: "pmap uf2 r = Some r"
    using \<open>pmap uf y \<noteq> None\<close> by (auto simp: find_post_def dom_pmap [symmetric])
  from step(1,2) ry have rx: "rep_of (pmap uf) x = Some r" by (simp add: rep_of_step)
  then have rx2: "rep_of (pmap uf2) x = Some r" by (simp add: rep2)
  have xs2: "x \<in> set (map fst (parent uf2))" using xs keys2 by simp
  have "find_post uf x r ?uf3"
    unfolding find_post_def
  proof (intro conjI allI)
    show "uf_inv ?uf3" by (rule uf_inv_compress [OF inv2 rx2 rr])
    show "rk ?uf3 = rk uf" by (simp add: rk2)
    show "map fst (parent ?uf3) = map fst (parent uf) @ (if x \<in> fst ` set (parent uf) then [] else [x])"
      using xs xs2 keys2 by (simp add: update_keys)
    show "rep_of (pmap ?uf3) z = rep_of (pmap uf) z" for z
      using rep_of_compress [OF inv2 rx2 rr, of z] by (simp add: rep2)
    show "rep_of (pmap uf) x = Some r" by (rule rx)
    show "pmap ?uf3 r = Some r" using rr by simp
    show "pmap ?uf3 x = Some r" by simp
  qed
  with fx show ?case by blast
qed

lemma pmap_rank_update [simp]: "pmap (uf\<lparr>rank := rs\<rparr>) = pmap uf"
  by (simp add: pmap_def)

lemma rk_rank_update [simp]:
  "rk (uf\<lparr>rank := AList.update k v (rank uf)\<rparr>) = (rk uf)(k := v)"
  by (simp add: rk_def fun_eq_iff update_conv')

lemma rank_lookup:
  "uf_inv uf \<Longrightarrow> pmap uf r \<noteq> None \<Longrightarrow> map_of (rank uf) r = Some (rk uf r)"
proof -
  assume inv: "uf_inv uf" and "pmap uf r \<noteq> None"
  then have "r \<in> fst ` set (parent uf)" by (auto simp: dom_pmap [symmetric])
  with inv have "r \<in> fst ` set (rank uf)" by (simp add: uf_inv_def)
  then have "r \<in> dom (map_of (rank uf))" by (simp add: dom_map_of_conv_image_fst)
  then show ?thesis by (auto simp: rk_def)
qed

lemma find_unseen:
  assumes inv: "uf_inv uf" and new: "pmap uf x = None"
  shows "\<exists>uf'. find x uf = Some (x, uf') \<and> find_post uf x x uf'"
proof -
  let ?uf1 = "uf\<lparr>parent := AList.update x x (parent uf), rank := AList.update x 0 (rank uf)\<rparr>"
  from new have xs: "x \<notin> fst ` set (parent uf)" by (auto simp: dom_pmap [symmetric])
  with inv have xr: "x \<notin> fst ` set (rank uf)" by (simp add: uf_inv_def)
  then have rk0: "rk uf x = 0"
    by (simp add: rk_def map_of_eq_None_iff [THEN iffD2])
  have fx: "find x uf = Some (x, ?uf1)"
    by (subst find.simps) (simp add: xs update_conv')
  have pm: "pmap ?uf1 = (pmap uf)(x \<mapsto> x)" by (simp add: pmap_def update_conv')
  have rkeq: "rk ?uf1 = rk uf" using rk0 by (auto simp: rk_def fun_eq_iff update_conv')
  have inv1: "uf_inv ?uf1"
    unfolding uf_inv_def
  proof (intro conjI allI impI)
    show "distinct (map fst (parent ?uf1))" using inv by (simp add: uf_inv_def distinct_update)
    show "fst ` set (rank ?uf1) = fst ` set (parent ?uf1)"
    proof -
      have "set (map fst (rank ?uf1)) = set (map fst (parent ?uf1))"
        using inv xs xr unfolding uf_inv_def
        by (simp add: update_keys del: set_map) (simp add: xs xr)
      then show ?thesis by simp
    qed
  next
    fix a b assume "pmap ?uf1 a = Some b"
    then show "b \<in> dom (pmap ?uf1)"
      using inv unfolding pm uf_inv_def by (auto split: if_splits)
  next
    fix a b assume "pmap ?uf1 a = Some b" and "b \<noteq> a"
    then show "rk ?uf1 a < rk ?uf1 b"
      using inv unfolding pm rkeq uf_inv_def by (auto split: if_splits)
  qed
  have "find_post uf x x ?uf1"
    unfolding find_post_def
  proof (intro conjI allI)
    show "uf_inv ?uf1" by (rule inv1)
    show "rk ?uf1 = rk uf" by (rule rkeq)
    show "map fst (parent ?uf1) = map fst (parent uf) @ (if x \<in> fst ` set (parent uf) then [] else [x])"
      using xs by (simp add: update_keys)
    show "rep_of (pmap ?uf1) z = rep_of (pmap uf) z" for z
      unfolding pm by (rule rep_of_fresh [OF inv new])
    show "rep_of (pmap uf) x = Some x" using new by (simp add: rep_of_unseen)
    show "pmap ?uf1 x = Some x" by (simp add: pm)
    show "pmap ?uf1 x = Some x" by (simp add: pm)
  qed
  with fx show ?thesis by blast
qed

lemma find_spec:
  assumes inv: "uf_inv uf"
  shows "\<exists>r uf'. find x uf = Some (r, uf') \<and> find_post uf x r uf'"
proof (cases "pmap uf x")
  case None
  from find_unseen [OF inv None] show ?thesis by blast
next
  case (Some y)
  with find_seen [OF inv, of x] show ?thesis by simp
qed

lemma rep_of_link_gen:
  assumes inv: "uf_inv uf" and ra: "pmap uf a = Some a" and rb: "pmap uf b = Some b"
    and ne: "a \<noteq> b" and pb: "p' b = Some a" and other: "\<And>z. z \<noteq> b \<Longrightarrow> p' z = pmap uf z"
  shows "rep_of p' z = (if rep_of (pmap uf) z = Some b then Some a else rep_of (pmap uf) z)"
  using inv
proof (induction z rule: uf_induct)
  case (unseen z)
  with rb have "z \<noteq> b" by auto
  with unseen other show ?case by (simp add: rep_of_unseen)
next
  case (root z)
  show ?case
  proof (cases "z = b")
    case True
    have "rep_of p' b = rep_of p' a" using pb ne by (simp add: rep_of_step)
    also have "\<dots> = Some a" using other [of a] ne ra by (simp add: rep_of_root)
    finally show ?thesis using True rb by (simp add: rep_of_root)
  next
    case False
    with root other show ?thesis by (simp add: rep_of_root)
  qed
next
  case (step z w)
  with rb have "z \<noteq> b" by auto
  with step other have "rep_of p' z = rep_of p' w" by (simp add: rep_of_step)
  with step show ?case by (simp add: rep_of_step)
qed

lemma uf_inv_link:
  assumes inv: "uf_inv uf" and ra: "pmap uf a = Some a" and rb: "pmap uf b = Some b"
    and ne: "a \<noteq> b" and le: "rk uf b \<le> rk uf a"
    and pm: "pmap uf' = (pmap uf)(b \<mapsto> a)"
    and keys: "map fst (parent uf') = map fst (parent uf)"
    and rkeys: "fst ` set (rank uf') = fst ` set (rank uf)"
    and rk': "rk uf' = (if rk uf a = rk uf b then (rk uf)(a := rk uf a + 1) else rk uf)"
  shows "uf_inv uf'"
  unfolding uf_inv_def
proof (intro conjI allI impI)
  show "distinct (map fst (parent uf'))" using inv keys by (simp add: uf_inv_def)
  have "set (map fst (parent uf')) = set (map fst (parent uf))" using keys by simp
  then show "fst ` set (rank uf') = fst ` set (parent uf')"
    using inv rkeys by (simp add: uf_inv_def)
next
  fix x y assume "pmap uf' x = Some y"
  then show "y \<in> dom (pmap uf')"
    using inv ra unfolding pm uf_inv_def by (auto split: if_splits)
next
  fix x y assume xy: "pmap uf' x = Some y" and "y \<noteq> x"
  show "rk uf' x < rk uf' y"
  proof (cases "x = b")
    case True
    with xy have "y = a" by (simp add: pm)
    with True le ne show ?thesis by (auto simp: rk')
  next
    case False
    with xy have old: "pmap uf x = Some y" by (simp add: pm)
    with inv \<open>y \<noteq> x\<close> have lt: "rk uf x < rk uf y" unfolding uf_inv_def by blast
    from old \<open>y \<noteq> x\<close> ra have "x \<noteq> a" by auto
    with lt show ?thesis by (auto simp: rk')
  qed
qed

lemma find_post_keys:
  "find_post uf x r uf' \<Longrightarrow> map fst (parent uf') = add_key (map fst (parent uf)) x"
  by (simp add: find_post_def add_key_def)

lemma find_post_seen: "find_post uf x r uf' \<Longrightarrow> pmap uf' x \<noteq> None"
proof -
  assume "find_post uf x r uf'"
  then have "x \<in> set (map fst (parent uf'))" by (auto simp: find_post_def)
  then have "x \<in> dom (pmap uf')" unfolding dom_pmap by simp
  then show ?thesis by auto
qed

lemma union_link:
  assumes inv: "uf_inv uf" and ra: "pmap uf a = Some a" and rb: "pmap uf b = Some b"
    and ne: "a \<noteq> b" and le: "rk uf b \<le> rk uf a"
  defines "uf3 \<equiv> uf\<lparr>parent := AList.update b a (parent uf)\<rparr>"
  defines "uf4 \<equiv> (if rk uf a = rk uf b
                   then uf3\<lparr>rank := AList.update a (rk uf a + 1) (rank uf3)\<rparr> else uf3)"
  shows "uf_inv uf4"
    and "map fst (parent uf4) = map fst (parent uf)"
    and "rep_of (pmap uf4) z = (if rep_of (pmap uf) z = Some b then Some a else rep_of (pmap uf) z)"
proof -
  have bs: "b \<in> set (map fst (parent uf))"
    using rb dom_pmap [of uf] by auto
  have as: "a \<in> fst ` set (rank uf)"
    using ra dom_pmap [of uf] inv by (auto simp: uf_inv_def)
  have pm: "pmap uf4 = (pmap uf)(b \<mapsto> a)" by (simp add: uf4_def uf3_def)
  show keys: "map fst (parent uf4) = map fst (parent uf)"
    using bs by (simp add: uf4_def uf3_def update_keys)
  have "set (map fst (rank uf4)) = set (map fst (rank uf))"
    using as by (simp add: uf4_def uf3_def update_keys del: set_map) auto
  then have rkeys: "fst ` set (rank uf4) = fst ` set (rank uf)" by simp
  have rk': "rk uf4 = (if rk uf a = rk uf b then (rk uf)(a := rk uf a + 1) else rk uf)"
    by (auto simp: uf4_def uf3_def rk_def fun_eq_iff update_conv')
  show "uf_inv uf4" by (rule uf_inv_link [OF inv ra rb ne le pm keys rkeys rk'])
  show "rep_of (pmap uf4) z = (if rep_of (pmap uf) z = Some b then Some a else rep_of (pmap uf) z)"
    by (rule rep_of_link_gen [OF inv ra rb ne]) (simp_all add: pm)
qed

lemma union_spec:
  assumes inv: "uf_inv uf"
  shows "\<exists>uf'. union x y uf = Inr uf' \<and> union_post uf x y uf'"
proof -
  from find_spec [OF inv, of x] obtain rx uf1
    where f1: "find x uf = Some (rx, uf1)" and p1: "find_post uf x rx uf1" by blast
  from p1 have inv1: "uf_inv uf1" by (simp add: find_post_def)
  from find_spec [OF inv1, of y] obtain ry uf2
    where f2: "find y uf1 = Some (ry, uf2)" and p2: "find_post uf1 y ry uf2" by blast
  from p2 have inv2: "uf_inv uf2" by (simp add: find_post_def)
  have keys2: "map fst (parent uf2) = add_key (add_key (map fst (parent uf)) x) y"
    using find_post_keys [OF p1] find_post_keys [OF p2] by simp
  have rep2: "rep_of (pmap uf2) z = rep_of (pmap uf) z" for z
    using p1 p2 by (simp add: find_post_def)
  have repx: "rep_of (pmap uf) x = Some rx" using p1 by (simp add: find_post_def)
  have repy: "rep_of (pmap uf) y = Some ry" using p1 p2 by (simp add: find_post_def)
  have rooty: "pmap uf2 ry = Some ry" using p2 by (simp add: find_post_def)
  have rootx: "pmap uf2 rx = Some rx"
  proof -
    have "pmap uf1 x \<noteq> None" by (rule find_post_seen [OF p1])
    moreover have "rep_of (pmap uf1) x = Some rx" using p1 by (simp add: find_post_def)
    ultimately have "pmap uf1 rx = Some rx" using rep_of_is_root [OF inv1] by blast
    then have "rep_of (pmap uf1) rx = Some rx" by (simp add: rep_of_root)
    then have r2: "rep_of (pmap uf2) rx = Some rx" using p2 by (simp add: find_post_def)
    have "set (map fst (parent uf1)) \<subseteq> set (map fst (parent uf2))"
      using find_post_keys [OF p2] by (auto simp: add_key_def)
    moreover have "rx \<in> dom (pmap uf1)" using \<open>pmap uf1 rx = Some rx\<close> by auto
    ultimately have "rx \<in> dom (pmap uf2)" unfolding dom_pmap by auto
    with rep_of_is_root [OF inv2 r2] show ?thesis by auto
  qed
  show ?thesis
  proof (cases "rx = ry")
    case True
    have "union x y uf = Inr uf2" using f1 f2 True by (simp add: union_def)
    moreover have "union_post uf x y uf2"
      unfolding union_post_def using inv2 keys2 repx repy True rep2
      by (intro conjI exI [of _ rx]) auto
    ultimately show ?thesis by blast
  next
    case False
    have lx: "map_of (rank uf2) rx = Some (rk uf2 rx)"
      using rank_lookup [OF inv2] rootx by simp
    have ly: "map_of (rank uf2) ry = Some (rk uf2 ry)"
      using rank_lookup [OF inv2] rooty by simp
    show ?thesis
    proof (cases "rk uf2 rx < rk uf2 ry")
      case True
      let ?uf3 = "uf2\<lparr>parent := AList.update rx ry (parent uf2)\<rparr>"
      let ?uf4 = "(if rk uf2 ry = rk uf2 rx
                   then ?uf3\<lparr>rank := AList.update ry (rk uf2 ry + 1) (rank ?uf3)\<rparr> else ?uf3)"
      have le: "rk uf2 rx \<le> rk uf2 ry" using True by simp
      have ne: "ry \<noteq> rx" using False by simp
      have u: "union x y uf = Inr ?uf4"
        using f1 f2 False True lx ly by (simp add: union_def)
      note L = union_link [OF inv2 rooty rootx ne le]
      have "union_post uf x y ?uf4"
        unfolding union_post_def
      proof (intro conjI)
        show "uf_inv ?uf4" by (rule L(1))
        show "map fst (parent ?uf4) = add_key (add_key (map fst (parent uf)) x) y"
          using L(2) keys2 by simp
        show "\<exists>a b. (rep_of (pmap uf) x = Some a \<and> rep_of (pmap uf) y = Some b \<or>
                  rep_of (pmap uf) x = Some b \<and> rep_of (pmap uf) y = Some a) \<and>
                (\<forall>z. rep_of (pmap ?uf4) z =
                    (if rep_of (pmap uf) z = Some b then Some a else rep_of (pmap uf) z))"
        proof (rule exI [of _ ry], rule exI [of _ rx], intro conjI allI)
          show "rep_of (pmap uf) x = Some ry \<and> rep_of (pmap uf) y = Some rx \<or>
                rep_of (pmap uf) x = Some rx \<and> rep_of (pmap uf) y = Some ry"
            using repx repy by simp
          show "rep_of (pmap ?uf4) z =
                  (if rep_of (pmap uf) z = Some rx then Some ry else rep_of (pmap uf) z)" for z
            using L(3) [of z] by (simp only: rep2)
        qed
      qed
      with u show ?thesis by blast
    next
      case nlt: False
      let ?uf3 = "uf2\<lparr>parent := AList.update ry rx (parent uf2)\<rparr>"
      let ?uf4 = "(if rk uf2 rx = rk uf2 ry
                   then ?uf3\<lparr>rank := AList.update rx (rk uf2 rx + 1) (rank ?uf3)\<rparr> else ?uf3)"
      have le: "rk uf2 ry \<le> rk uf2 rx" using nlt by simp
      have u: "union x y uf = Inr ?uf4"
        using f1 f2 False nlt lx ly by (simp add: union_def)
      note L = union_link [OF inv2 rootx rooty False le]
      have "union_post uf x y ?uf4"
        unfolding union_post_def
      proof (intro conjI)
        show "uf_inv ?uf4" by (rule L(1))
        show "map fst (parent ?uf4) = add_key (add_key (map fst (parent uf)) x) y"
          using L(2) keys2 by simp
        show "\<exists>a b. (rep_of (pmap uf) x = Some a \<and> rep_of (pmap uf) y = Some b \<or>
                  rep_of (pmap uf) x = Some b \<and> rep_of (pmap uf) y = Some a) \<and>
                (\<forall>z. rep_of (pmap ?uf4) z =
                    (if rep_of (pmap uf) z = Some b then Some a else rep_of (pmap uf) z))"
        proof (rule exI [of _ rx], rule exI [of _ ry], intro conjI allI)
          show "rep_of (pmap uf) x = Some rx \<and> rep_of (pmap uf) y = Some ry \<or>
                rep_of (pmap uf) x = Some ry \<and> rep_of (pmap uf) y = Some rx"
            using repx repy by simp
          show "rep_of (pmap ?uf4) z =
                  (if rep_of (pmap uf) z = Some ry then Some rx else rep_of (pmap uf) z)" for z
            using L(3) [of z] by (simp only: rep2)
        qed
      qed
      with u show ?thesis by blast
    qed
  qed
qed

lemma equiv_closure_sym: "(x, y) \<in> equiv_closure R \<Longrightarrow> (y, x) \<in> equiv_closure R"
  unfolding equiv_closure_def
  using sym_rtrancl [OF sym_Un_converse, of R] by (auto dest: symD)

lemma equiv_closure_trans:
  "(x, y) \<in> equiv_closure R \<Longrightarrow> (y, z) \<in> equiv_closure R \<Longrightarrow> (x, z) \<in> equiv_closure R"
  unfolding equiv_closure_def by (rule rtrancl_trans)

lemma equiv_closure_base: "(x, y) \<in> R \<Longrightarrow> (x, y) \<in> equiv_closure R"
  unfolding equiv_closure_def by blast

lemma equiv_closure_refl: "(x, x) \<in> equiv_closure R"
  unfolding equiv_closure_def by blast

lemma equiv_closure_least:
  assumes sub: "R \<subseteq> E" and r: "\<And>x. (x, x) \<in> E" and s: "\<And>x y. (x, y) \<in> E \<Longrightarrow> (y, x) \<in> E"
    and t: "\<And>x y z. (x, y) \<in> E \<Longrightarrow> (y, z) \<in> E \<Longrightarrow> (x, z) \<in> E"
  shows "equiv_closure R \<subseteq> E"
proof
  fix p assume "p \<in> equiv_closure R"
  then obtain x y where p: "p = (x, y)" and xy: "(x, y) \<in> (R \<union> R\<inverse>)\<^sup>*"
    unfolding equiv_closure_def by (cases p) auto
  from xy have "(x, y) \<in> E"
  proof (induction rule: rtrancl_induct)
    case base
    show ?case by (rule r)
  next
    case (step y z)
    from step(2) sub s have "(y, z) \<in> E" by auto
    with step(3) show ?case by (rule t)
  qed
  with p show "p \<in> E" by simp
qed

lemma equiv_closure_mono: "A \<subseteq> B \<Longrightarrow> equiv_closure A \<subseteq> equiv_closure B"
  unfolding equiv_closure_def by (intro rtrancl_mono) blast

lemma equiv_closure_absorb: "equiv_closure (equiv_closure A \<union> B) = equiv_closure (A \<union> B)"
proof
  show "equiv_closure (equiv_closure A \<union> B) \<subseteq> equiv_closure (A \<union> B)"
  proof (rule equiv_closure_least)
    show "equiv_closure A \<union> B \<subseteq> equiv_closure (A \<union> B)"
      using equiv_closure_mono [of A "A \<union> B"] equiv_closure_base [of _ _ "A \<union> B"] by auto
  qed (blast intro: equiv_closure_refl equiv_closure_sym equiv_closure_trans)+
  show "equiv_closure (A \<union> B) \<subseteq> equiv_closure (equiv_closure A \<union> B)"
    by (rule equiv_closure_mono) (auto intro: equiv_closure_base)
qed

lemma same_rel_union:
  assumes post: "union_post uf x y uf'"
  shows "same_rel uf' = equiv_closure (same_rel uf \<union> {(x, y)})"
proof -
  from post obtain a b where
    ab: "rep_of (pmap uf) x = Some a \<and> rep_of (pmap uf) y = Some b \<or>
         rep_of (pmap uf) x = Some b \<and> rep_of (pmap uf) y = Some a"
    and rep': "\<And>z. rep_of (pmap uf') z =
                 (if rep_of (pmap uf) z = Some b then Some a else rep_of (pmap uf) z)"
    unfolding union_post_def by blast
  let ?C = "equiv_closure (same_rel uf \<union> {(x, y)})"
  have old: "(z, w) \<in> ?C" if "rep_of (pmap uf) z = rep_of (pmap uf) w" for z w
    using that by (intro equiv_closure_base) (simp add: same_rel_def)
  have xy: "(x, y) \<in> ?C" by (intro equiv_closure_base) simp
  then have yx: "(y, x) \<in> ?C" by (rule equiv_closure_sym)
  have ab_conn: "(z, w) \<in> ?C"
    if "rep_of (pmap uf) z = Some b" and "rep_of (pmap uf) w = Some a" for z w
  proof -
    from ab show ?thesis
    proof
      assume h: "rep_of (pmap uf) x = Some a \<and> rep_of (pmap uf) y = Some b"
      have "(z, y) \<in> ?C" using h that by (intro old) simp
      moreover have "(x, w) \<in> ?C" using h that by (intro old) simp
      ultimately show ?thesis using yx by (blast intro: equiv_closure_trans)
    next
      assume h: "rep_of (pmap uf) x = Some b \<and> rep_of (pmap uf) y = Some a"
      have "(z, x) \<in> ?C" using h that by (intro old) simp
      moreover have "(y, w) \<in> ?C" using h that by (intro old) simp
      ultimately show ?thesis using xy by (blast intro: equiv_closure_trans)
    qed
  qed
  show ?thesis
  proof
    show "same_rel uf' \<subseteq> ?C"
    proof
      fix p assume "p \<in> same_rel uf'"
      then obtain z w where p: "p = (z, w)" and e: "rep_of (pmap uf') z = rep_of (pmap uf') w"
        by (auto simp: same_rel_def)
      have "(z, w) \<in> ?C"
      proof (cases "rep_of (pmap uf) z = Some b")
        case zb: True
        show ?thesis
        proof (cases "rep_of (pmap uf) w = Some b")
          case True
          with zb show ?thesis by (intro old) simp
        next
          case False
          with zb e rep' have "rep_of (pmap uf) w = Some a" by simp
          with zb show ?thesis by (rule ab_conn)
        qed
      next
        case zb: False
        show ?thesis
        proof (cases "rep_of (pmap uf) w = Some b")
          case True
          with zb e rep' have "rep_of (pmap uf) z = Some a" by simp
          with True have "(w, z) \<in> ?C" by (rule ab_conn)
          then show ?thesis by (rule equiv_closure_sym)
        next
          case False
          with zb e rep' show ?thesis by (intro old) simp
        qed
      qed
      with p show "p \<in> ?C" by simp
    qed
    show "?C \<subseteq> same_rel uf'"
    proof (rule equiv_closure_least)
      show "same_rel uf \<union> {(x, y)} \<subseteq> same_rel uf'"
        using ab rep' by (auto simp: same_rel_def)
    qed (auto simp: same_rel_def)
  qed
qed

lemma same_rel_find: "find_post uf x r uf' \<Longrightarrow> same_rel uf' = same_rel uf"
  by (simp add: same_rel_def find_post_def)

lemma run_call_spec:
  assumes inv: "uf_inv uf"
  shows "\<exists>uf'. run_call c uf = Inr uf' \<and> uf_inv uf' \<and>
           same_rel uf' = equiv_closure (same_rel uf \<union> union_pairs [c])"
proof (cases c)
  case (Find x)
  from find_spec [OF inv, of x] obtain r uf' where
    f: "find x uf = Some (r, uf')" and post: "find_post uf x r uf'" by blast
  have "equiv_closure (same_rel uf) = same_rel uf"
  proof
    show "equiv_closure (same_rel uf) \<subseteq> same_rel uf"
      by (rule equiv_closure_least) (auto simp: same_rel_def)
    show "same_rel uf \<subseteq> equiv_closure (same_rel uf)"
      by (auto intro: equiv_closure_base)
  qed
  with f post Find show ?thesis
    by (simp add: same_rel_find [OF post]) (simp add: find_post_def)
next
  case (Union x y)
  from union_spec [OF inv, of x y] obtain uf' where
    u: "union x y uf = Inr uf'" and post: "union_post uf x y uf'" by blast
  with Union show ?thesis
    by (simp add: same_rel_union [OF post]) (simp add: union_post_def)
qed

lemma run_calls_spec:
  assumes inv: "uf_inv uf"
  shows "\<exists>uf'. run_calls cs uf = Inr uf' \<and> uf_inv uf' \<and>
           same_rel uf' = equiv_closure (same_rel uf \<union> union_pairs cs)"
  using inv
proof (induction cs arbitrary: uf)
  case Nil
  have "equiv_closure (same_rel uf) = same_rel uf"
  proof
    show "equiv_closure (same_rel uf) \<subseteq> same_rel uf"
      by (rule equiv_closure_least) (auto simp: same_rel_def)
    show "same_rel uf \<subseteq> equiv_closure (same_rel uf)"
      by (auto intro: equiv_closure_base)
  qed
  with Nil show ?case by simp
next
  case (Cons c cs)
  from run_call_spec [OF Cons.prems, of c] obtain uf1 where
    c: "run_call c uf = Inr uf1" and inv1: "uf_inv uf1"
    and rel1: "same_rel uf1 = equiv_closure (same_rel uf \<union> union_pairs [c])" by blast
  from Cons.IH [OF inv1] obtain uf' where
    cs: "run_calls cs uf1 = Inr uf'" and inv': "uf_inv uf'"
    and rel': "same_rel uf' = equiv_closure (same_rel uf1 \<union> union_pairs cs)" by blast
  have "union_pairs (c # cs) = union_pairs [c] \<union> union_pairs cs"
    by (cases c) auto
  then have "same_rel uf' = equiv_closure (same_rel uf \<union> union_pairs (c # cs))"
    using rel' rel1 by (simp add: equiv_closure_absorb Un_assoc)
  with c cs inv' show ?case by simp
qed

lemma uf_inv_init: "uf_inv UnionFind_init"
  by (simp add: uf_inv_def UnionFind_init_def pmap_def)

lemma same_rel_init: "same_rel UnionFind_init = Id"
  by (auto simp: same_rel_def UnionFind_init_def pmap_def rep_of_unseen)


lemma find_root: 
  assumes "uf_inv uf" shows "map_option fst (find z uf) = rep_of (pmap uf) z"
proof -
  from find_spec [OF assms, of z] obtain r uf' where
    "find z uf = Some (r, uf')" "find_post uf z r uf'" by blast
  then show ?thesis by (simp add: find_post_def)
qed

lemma same_root_iff:
  assumes inv: "uf_inv uf"
  shows "same_root uf x y \<longleftrightarrow> (x, y) \<in> same_rel uf"
proof -
  from find_spec [OF inv, of x] obtain rx uf1
    where f1: "find x uf = Some (rx, uf1)" and p1: "find_post uf x rx uf1" by blast
  from p1 have inv1: "uf_inv uf1" by (simp add: find_post_def)
  from find_spec [OF inv1, of y] obtain ry uf2
    where f2: "find y uf1 = Some (ry, uf2)" and p2: "find_post uf1 y ry uf2" by blast
  have "rep_of (pmap uf) x = Some rx" using p1 by (simp add: find_post_def)
  moreover have "rep_of (pmap uf) y = Some ry" using p1 p2 by (simp add: find_post_def)
  ultimately show ?thesis using f1 f2 by (simp add: same_root_def same_rel_def)
qed

lemma reachable:
  "\<exists>uf. run_calls cs UnionFind_init = Inr uf \<and> uf_inv uf \<and>
        same_rel uf = (union_pairs cs \<union> (union_pairs cs)\<inverse>)\<^sup>*"
  using run_calls_spec [OF uf_inv_init, of cs]
  by (simp add: same_rel_init equiv_closure_def equiv_closure_absorb [of "{}", unfolded equiv_closure_def, simplified])

lemma uf_inv_acyclic:
  assumes "uf_inv uf"
  shows "acyclic {(a, b). map_of (parent uf) a = Some b \<and> a \<noteq> b}"
proof (rule acyclicI_order [where f = "\<lambda>x. - rk uf x"])
  fix a b assume "(a, b) \<in> {(a, b). map_of (parent uf) a = Some b \<and> a \<noteq> b}"
  then have "pmap uf a = Some b" "b \<noteq> a" by (auto simp: pmap_def)
  with assms have "rk uf a < rk uf b" unfolding uf_inv_def by blast
  then show "- rk uf b < - rk uf a" by simp
qed

lemma update_fresh: "k \<notin> fst ` set al \<Longrightarrow> AList.update k v al = al @ [(k, v)]"
  by (induction al) auto

lemma find_fresh:
  assumes new: "x \<notin> fst ` set (parent uf)"
  shows "find x uf = Some (x, uf\<lparr>parent := parent uf @ [(x, x)], rank := AList.update x 0 (rank uf)\<rparr>)"
proof -
  have "find x uf = Some (x, uf\<lparr>parent := AList.update x x (parent uf),
                                 rank := AList.update x 0 (rank uf)\<rparr>)"
    by (subst find.simps) (simp add: new update_conv')
  then show ?thesis by (simp only: update_fresh [OF new])
qed

lemma find_again:
  assumes post: "find_post uf x r uf1"
  shows "find x uf1 = Some (r, uf1)"
proof -
  from post have xr: "map_of (parent uf1) x = Some r" and rr: "map_of (parent uf1) r = Some r"
    by (simp_all add: find_post_def pmap_def)
  then have xs: "x \<in> fst ` set (parent uf1)" and rs: "r \<in> fst ` set (parent uf1)"
    by (auto simp: dom_map_of_conv_image_fst [symmetric])
  have fr: "find r uf1 = Some (r, uf1)"
    by (subst find.simps) (simp add: rs rr)
  have triv: "AList.update x r (parent uf1) = parent uf1"
    using xr by (rule update_triv)
  show ?thesis
    by (subst find.simps) (simp add: xs xr fr triv)
qed

lemma run_finds:
  assumes inv: "uf_inv uf"
  shows "\<exists>uf'. run_calls (map Find zs) uf = Inr uf' \<and> uf_inv uf' \<and>
           (\<forall>z. rep_of (pmap uf') z = rep_of (pmap uf) z)"
  using inv
proof (induction zs arbitrary: uf)
  case Nil
  then show ?case by simp
next
  case (Cons z zs)
  from find_spec [OF Cons.prems, of z] obtain r uf1 where
    f: "find z uf = Some (r, uf1)" and post: "find_post uf z r uf1" by blast
  from post have inv1: "uf_inv uf1" and rep1: "\<And>w. rep_of (pmap uf1) w = rep_of (pmap uf) w"
    by (simp_all add: find_post_def)
  from Cons.IH [OF inv1] obtain uf' where
    "run_calls (map Find zs) uf1 = Inr uf'" "uf_inv uf'"
    "\<forall>w. rep_of (pmap uf') w = rep_of (pmap uf1) w" by blast
  with f rep1 show ?case by simp
qed

section \<open>Correctness of user deduplication\<close>

lemma root_eq: "uf_inv uf \<Longrightarrow> rep_of (pmap uf) x = Some r \<Longrightarrow> root uf x = r"
  by (simp add: root_def)

lemma root_cong: "(\<And>z. rep_of (pmap uf') z = rep_of (pmap uf) z) \<Longrightarrow> root uf' = root uf"
  by (simp add: root_def fun_eq_iff)

lemma get_groups_loop_spec:
  assumes "uf_inv uf" and "set xs \<subseteq> fst ` set (parent uf)"
  shows "\<exists>uf'. get_groups_loop xs groups uf = Inr (bucket (root uf) xs groups, uf') \<and>
           uf_inv uf' \<and> (\<forall>z. rep_of (pmap uf') z = rep_of (pmap uf) z)"
  using assms
proof (induction xs arbitrary: groups uf)
  case Nil
  then show ?case by simp
next
  case (Cons x xs)
  from find_spec [OF Cons.prems(1), of x] obtain r uf1 where
    f: "find x uf = Some (r, uf1)" and post: "find_post uf x r uf1" by blast
  from Cons.prems(2) have xs: "x \<in> fst ` set (parent uf)" by simp
  from post xs have keys: "map fst (parent uf1) = map fst (parent uf)"
    and inv1: "uf_inv uf1" and rep1: "\<And>z. rep_of (pmap uf1) z = rep_of (pmap uf) z"
    and r: "root uf x = r"
    by (simp_all add: find_post_def root_def)
  from keys have len: "length (parent uf1) = length (parent uf)"
    by (metis length_map)
  from keys have "fst ` set (parent uf1) = fst ` set (parent uf)"
    by (metis set_map)
  with Cons.prems(2) have sub: "set xs \<subseteq> fst ` set (parent uf1)" by simp
  have rt: "root uf1 = root uf" by (rule root_cong) (rule rep1)
  from Cons.IH [OF inv1 sub, of "AList.update r
          (insert x (case map_of groups r of None \<Rightarrow> {} | Some members \<Rightarrow> members)) groups"]
  obtain uf' where
    "get_groups_loop xs (AList.update r
          (insert x (case map_of groups r of None \<Rightarrow> {} | Some members \<Rightarrow> members)) groups) uf1
       = Inr (bucket (root uf1) xs (AList.update r
          (insert x (case map_of groups r of None \<Rightarrow> {} | Some members \<Rightarrow> members)) groups), uf')"
    and "uf_inv uf'" and "\<forall>z. rep_of (pmap uf') z = rep_of (pmap uf1) z" by blast
  with f len r rt rep1 show ?case by simp
qed

lemma bucket_map_of:
  "map_of (bucket f xs groups) r =
     (if r \<in> f ` set xs
      then Some ((case map_of groups r of None \<Rightarrow> {} | Some members \<Rightarrow> members) \<union>
                 {x \<in> set xs. f x = r})
      else map_of groups r)"
proof (induction xs arbitrary: groups)
  case Nil
  then show ?case by simp
next
  case (Cons x xs)
  show ?case
    by (simp add: Cons.IH update_conv' split: option.split) (auto simp: image_iff)
qed

lemma bucket_distinct:
  "distinct (map fst groups) \<Longrightarrow> distinct (map fst (bucket f xs groups))"
  by (induction xs arbitrary: groups) (simp_all add: distinct_update)

lemma bucket_entries:
  "(r, members) \<in> set (bucket f xs []) \<longleftrightarrow> r \<in> f ` set xs \<and> members = {x \<in> set xs. f x = r}"
proof -
  have d: "distinct (map fst (bucket f xs []))" by (rule bucket_distinct) simp
  have "(r, members) \<in> set (bucket f xs []) \<longleftrightarrow> map_of (bucket f xs []) r = Some members"
    using d by simp
  then show ?thesis by (auto simp: bucket_map_of)
qed

lemma make_user_groups_spec:
  assumes "\<forall>members \<in> set groups. members \<noteq> {}"
    and "distinct (map fst acc @ map Min groups)"
  shows "make_user_groups groups acc =
           Inr (acc @ map (\<lambda>members. (Min members, sorted_list_of_set members)) groups)"
  using assms
proof (induction groups arbitrary: acc)
  case Nil
  then show ?case by simp
next
  case (Cons members groups)
  from Cons.prems(2) have fresh: "Min members \<notin> fst ` set acc" by auto
  have d: "distinct (map fst (acc @ [(Min members, sorted_list_of_set members)]) @ map Min groups)"
    using Cons.prems(2) by auto
  from Cons.prems(1) have ne: "members \<noteq> {}" and rest: "\<forall>m \<in> set groups. m \<noteq> {}" by simp_all
  from Cons.IH [OF rest d] ne show ?case
    by (simp add: update_fresh [OF fresh])
qed

lemma register_ids_run: "register_ids ids uf = run_calls (map Find ids) uf"
  by (induction ids arbitrary: uf) (auto split: option.splits)

lemma run_calls_append:
  "run_calls (cs1 @ cs2) uf =
     (case run_calls cs1 uf of Inl e \<Rightarrow> Inl e | Inr uf' \<Rightarrow> run_calls cs2 uf')"
  by (induction cs1 arbitrary: uf) (auto split: sum.splits)

lemma match_loop_run:
  assumes "\<forall>(a, b) \<in> set ps. a \<in> dom ud \<and> b \<in> dom ud"
  shows "match_loop ud ps uf = run_calls (union_calls ud ps) uf"
  using assms
proof (induction ps arbitrary: uf)
  case Nil
  then show ?case by (simp add: union_calls_def)
next
  case (Cons p ps)
  obtain a b where p: "p = (a, b)" by (cases p)
  from Cons.prems p obtain d1 d2 where d: "ud a = Some d1" "ud b = Some d2" by auto
  from Cons.prems have rest: "\<forall>(a, b) \<in> set ps. a \<in> dom ud \<and> b \<in> dom ud" by simp
  have IH: "\<And>uf. match_loop ud ps uf = run_calls (union_calls ud ps) uf"
    using Cons.IH [OF rest] .
  show ?case
    using p d IH by (simp add: union_calls_def matched_def split: sum.splits)
qed

lemma set_keys_add_key: "set (add_key ks x) = insert x (set ks)"
  by (auto simp: add_key_def)

lemma run_calls_keys:
  assumes "uf_inv uf" and "run_calls cs uf = Inr uf'"
  shows "fst ` set (parent uf') = fst ` set (parent uf) \<union> call_ids cs"
  using assms
proof (induction cs arbitrary: uf)
  case Nil
  then show ?case by simp
next
  case (Cons c cs)
  show ?case
  proof (cases c)
    case (Find x)
    from find_spec [OF Cons.prems(1), of x] obtain r uf1 where
      f: "find x uf = Some (r, uf1)" and post: "find_post uf x r uf1" by blast
    from post have inv1: "uf_inv uf1" by (simp add: find_post_def)
    from find_post_keys [OF post] have "set (map fst (parent uf1)) = insert x (set (map fst (parent uf)))"
      by (simp only: set_keys_add_key)
    then have k1: "fst ` set (parent uf1) = insert x (fst ` set (parent uf))" by simp
    from Cons.prems(2) Find f have "run_calls cs uf1 = Inr uf'" by simp
    from Cons.IH [OF inv1 this] k1 Find show ?thesis by auto
  next
    case (Union x y)
    from union_spec [OF Cons.prems(1), of x y] obtain uf1 where
      u: "union x y uf = Inr uf1" and post: "union_post uf x y uf1" by blast
    from post have inv1: "uf_inv uf1"
      and "map fst (parent uf1) = add_key (add_key (map fst (parent uf)) x) y"
      by (simp_all add: union_post_def)
    then have "set (map fst (parent uf1)) = insert y (insert x (set (map fst (parent uf))))"
      by (simp only: set_keys_add_key)
    then have k1: "fst ` set (parent uf1) = insert y (insert x (fst ` set (parent uf)))" by simp
    from Cons.prems(2) Union u have "run_calls cs uf1 = Inr uf'" by simp
    from Cons.IH [OF inv1 this] k1 Union show ?thesis by auto
  qed
qed

lemma call_ids_append: "call_ids (cs1 @ cs2) = call_ids cs1 \<union> call_ids cs2"
  by (induction cs1 rule: call_ids.induct) auto

lemma call_ids_finds: "call_ids (map Find ids) = set ids"
  by (induction ids) auto

lemma call_ids_union_calls: "call_ids (union_calls ud ps) \<subseteq> fst ` set ps \<union> snd ` set ps"
  by (induction ps) (auto simp: union_calls_def)

lemma union_pairs_append: "union_pairs (cs1 @ cs2) = union_pairs cs1 \<union> union_pairs cs2"
  by (induction cs1 rule: union_pairs.induct) auto

lemma union_pairs_finds: "union_pairs (map Find ids) = {}"
  by (induction ids) auto

lemma union_pairs_union_calls: "union_pairs (union_calls ud ps) = {p \<in> set ps. matched ud p}"
proof (induction ps)
  case Nil
  show ?case by (simp add: union_calls_def)
next
  case (Cons p ps)
  obtain a b where p: "p = (a, b)" by (cases p)
  from Cons have IH: "union_pairs (map (\<lambda>(u1, u2). Union u1 u2) (filter (matched ud) ps)) =
                        {p \<in> set ps. matched ud p}"
    by (simp add: union_calls_def)
  show ?case
  proof (cases "matched ud (a, b)")
    case True
    then have "union_pairs (union_calls ud (p # ps)) = insert (a, b) {p \<in> set ps. matched ud p}"
      using p IH by (simp add: union_calls_def)
    also have "\<dots> = {q \<in> set (p # ps). matched ud q}" using True p by auto
    finally show ?thesis .
  next
    case False
    then have "union_pairs (union_calls ud (p # ps)) = {p \<in> set ps. matched ud p}"
      using p IH by (simp add: union_calls_def)
    also have "\<dots> = {q \<in> set (p # ps). matched ud q}" using False p by auto
    finally show ?thesis .
  qed
qed

lemma dom_user_data: "dom (user_data users_df) = row_id ` set users_df"
proof -
  have "dom (fold (\<lambda>row m. m(row_id row \<mapsto>
                      \<lparr>email = email_normalized row, phone = phone_normalized row,
                       name = name_normalized row, address = address_normalized row\<rparr>))
          rows m0) = dom m0 \<union> row_id ` set rows" for rows and m0 :: "int \<rightharpoonup> user_fields"
    by (induction rows arbitrary: m0) auto
  from this [of users_df Map.empty] show ?thesis unfolding user_data_def by simp
qed

lemma groups_of_distinct: "distinct (map fst (groups_of uf))"
  unfolding groups_of_def by (rule bucket_distinct) simp

lemma groups_of_entries:
  "(r, members) \<in> set (groups_of uf) \<longleftrightarrow>
     r \<in> root uf ` fst ` set (parent uf) \<and> members = {x \<in> fst ` set (parent uf). root uf x = r}"
  unfolding groups_of_def by (simp add: bucket_entries)

lemma groups_of_members:
  assumes "members \<in> set (map snd (groups_of uf))"
  shows "members \<noteq> {}" and "finite members" and "members \<subseteq> fst ` set (parent uf)"
proof -
  from assms obtain r where "(r, members) \<in> set (groups_of uf)" by auto
  then have r: "r \<in> root uf ` fst ` set (parent uf)"
    and m: "members = {x \<in> fst ` set (parent uf). root uf x = r}"
    by (simp_all add: groups_of_entries)
  from m show "members \<subseteq> fst ` set (parent uf)" by auto
  then show "finite members" by (rule finite_subset) simp
  from r m show "members \<noteq> {}" by auto
qed

lemma groups_of_mem:
  assumes "(r, members) \<in> set (groups_of uf)"
  shows "x \<in> members \<longleftrightarrow> x \<in> fst ` set (parent uf) \<and> root uf x = r"
proof -
  from assms have "members = {x \<in> fst ` set (parent uf). root uf x = r}"
    by (simp only: groups_of_entries)
  then show ?thesis by blast
qed

lemma groups_of_Min_in:
  assumes "(r, members) \<in> set (groups_of uf)"
  shows "Min members \<in> members"
proof -
  from assms have "members \<in> set (map snd (groups_of uf))" by force
  from groups_of_members(1,2) [OF this] show ?thesis by (rule Min_in [rotated])
qed

lemma groups_of_key_unique:
  assumes "(r, members) \<in> set (groups_of uf)" and "(r, members') \<in> set (groups_of uf)"
  shows "members = members'"
proof -
  from assms(1) have "members = {x \<in> fst ` set (parent uf). root uf x = r}"
    by (simp only: groups_of_entries)
  moreover from assms(2) have "members' = {x \<in> fst ` set (parent uf). root uf x = r}"
    by (simp only: groups_of_entries)
  ultimately show ?thesis by (simp only:)
qed

lemma groups_of_Min_distinct: "distinct (map Min (map snd (groups_of uf)))"
proof -
  have dG: "distinct (groups_of uf)"
    using groups_of_distinct [of uf] distinct_map [of fst "groups_of uf"] by blast
  have inj: "inj_on (\<lambda>e. Min (snd e)) (set (groups_of uf))"
  proof (rule inj_onI)
    fix e e' assume e: "e \<in> set (groups_of uf)" and e': "e' \<in> set (groups_of uf)"
      and eq: "Min (snd e) = Min (snd e')"
    obtain r S where es: "e = (r, S)" by (cases e)
    obtain r' S' where es': "e' = (r', S')" by (cases e')
    from e es have m: "(r, S) \<in> set (groups_of uf)" by simp
    from e' es' have m': "(r', S') \<in> set (groups_of uf)" by simp
    from eq es es' have eq': "Min S = Min S'" by simp
    from groups_of_Min_in [OF m] groups_of_mem [OF m, of "Min S"]
    have 1: "root uf (Min S) = r" by blast
    from groups_of_Min_in [OF m'] groups_of_mem [OF m', of "Min S'"]
    have 2: "root uf (Min S') = r'" by blast
    from 1 2 eq' have "r = r'" by simp
    with m m' have "S = S'" using groups_of_key_unique by blast
    with \<open>r = r'\<close> es es' show "e = e'" by simp
  qed
  have "distinct (map (\<lambda>e. Min (snd e)) (groups_of uf))"
    using dG inj by (simp only: distinct_map simp_thms)
  moreover have "map Min (map snd (groups_of uf)) = map (\<lambda>e. Min (snd e)) (groups_of uf)"
    by (simp only: map_map comp_def)
  ultimately show ?thesis by (rule ssubst [rotated])
qed

lemma get_groups_spec:
  assumes "uf_inv uf"
  shows "\<exists>uf'. get_groups uf = Inr (groups_of uf, uf')"
  using get_groups_loop_spec [OF assms, of "map fst (parent uf)" "[]"]
  by (auto simp: get_groups_def groups_of_def)

lemma make_user_groups_of:
  "make_user_groups (map snd (groups_of uf)) [] = Inr (map canonical (map snd (groups_of uf)))"
proof -
  have ne: "\<forall>members \<in> set (map snd (groups_of uf)). members \<noteq> {}"
    using groups_of_members(1) by blast
  have d: "distinct (map fst ([] :: (int \<times> int list) list) @ map Min (map snd (groups_of uf)))"
    using groups_of_Min_distinct [of uf] by simp
  from make_user_groups_spec [OF ne d] show ?thesis
    by (simp add: canonical_def [abs_def])
qed

lemma dedup_run:
  assumes sub: "\<forall>(a, b) \<in> set order. a \<in> row_id ` set users_df \<and> b \<in> row_id ` set users_df"
  shows "\<exists>uf1. run_calls (map Find (map row_id users_df) @ union_calls (user_data users_df) order)
                 UnionFind_init = Inr uf1 \<and>
           uf_inv uf1 \<and> fst ` set (parent uf1) = row_id ` set users_df \<and>
           same_rel uf1 = equiv_closure {p \<in> set order. matched (user_data users_df) p} \<and>
           deduplicate_users order users_df =
             Inr (length (groups_of uf1), map canonical (map snd (groups_of uf1)))"
proof -
  let ?ids = "map row_id users_df"
  let ?ud = "user_data users_df"
  let ?cs = "map Find ?ids @ union_calls ?ud order"
  from reachable [of ?cs] obtain uf1 where
    run: "run_calls ?cs UnionFind_init = Inr uf1" and inv1: "uf_inv uf1"
    and rel: "same_rel uf1 = (union_pairs ?cs \<union> (union_pairs ?cs)\<inverse>)\<^sup>*" by blast
  from run obtain uf0 where
    r0: "run_calls (map Find ?ids) UnionFind_init = Inr uf0"
    and r1: "run_calls (union_calls ?ud order) uf0 = Inr uf1"
    by (auto simp: run_calls_append split: sum.splits)
  have dom: "\<forall>(a, b) \<in> set order. a \<in> dom ?ud \<and> b \<in> dom ?ud"
    using sub by (simp add: dom_user_data)
  have keys: "fst ` set (parent uf1) = row_id ` set users_df"
  proof -
    have "call_ids (union_calls ?ud order) \<subseteq> row_id ` set users_df"
      using call_ids_union_calls [of ?ud order] sub by fastforce
    moreover have "call_ids (map Find ?ids) = row_id ` set users_df"
      by (simp only: call_ids_finds set_map)
    ultimately have "call_ids ?cs = row_id ` set users_df"
      unfolding call_ids_append by blast
    with run_calls_keys [OF uf_inv_init run] show ?thesis
      by (simp add: UnionFind_init_def)
  qed
  have up: "union_pairs ?cs = {p \<in> set order. matched ?ud p}"
    by (simp only: union_pairs_append union_pairs_finds union_pairs_union_calls Un_empty_left)
  have rel': "same_rel uf1 = equiv_closure {p \<in> set order. matched ?ud p}"
    using rel unfolding up equiv_closure_def .
  from get_groups_spec [OF inv1] obtain uf2 where
    gg: "get_groups uf1 = Inr (groups_of uf1, uf2)" by blast
  have reg: "register_ids ?ids UnionFind_init = Inr uf0"
    by (simp only: register_ids_run r0)
  have ml: "match_loop ?ud order uf0 = Inr uf1"
    by (simp only: match_loop_run [OF dom] r1)
  have "deduplicate_users order users_df =
          Inr (length (groups_of uf1), map canonical (map snd (groups_of uf1)))"
    unfolding deduplicate_users_def
    by (simp only: reg ml gg make_user_groups_of sum.case prod.case)
  with run inv1 keys rel' show ?thesis by blast
qed

lemma ordered_pairs_nth:
  "ordered_pairs xs = {(xs ! i, xs ! j) | i j. i < j \<and> j < length xs}"
proof (induction xs)
  case Nil
  show ?case by simp
next
  case (Cons x xs)
  have "{((x # xs) ! i, (x # xs) ! j) | i j. i < j \<and> j < length (x # xs)} =
          Pair x ` set xs \<union> {(xs ! i, xs ! j) | i j. i < j \<and> j < length xs}"
    (is "?L = ?A \<union> ?B")
  proof (intro set_eqI iffI)
    fix p assume "p \<in> ?L"
    then obtain i j where p: "p = ((x # xs) ! i, (x # xs) ! j)" and ij: "i < j" "j < length (x # xs)"
      by blast
    from ij obtain j' where j: "j = Suc j'" by (cases j) auto
    show "p \<in> ?A \<union> ?B"
    proof (cases i)
      case 0
      with p j ij have "p = (x, xs ! j')" "j' < length xs" by simp_all
      then show ?thesis by auto
    next
      case (Suc i')
      with p j ij have "p = (xs ! i', xs ! j')" "i' < j'" "j' < length xs" by simp_all
      then show ?thesis by blast
    qed
  next
    fix p assume "p \<in> ?A \<union> ?B"
    then show "p \<in> ?L"
    proof
      assume "p \<in> ?A"
      then obtain y where "y \<in> set xs" and p: "p = (x, y)" by auto
      then obtain k where "k < length xs" "xs ! k = y" by (auto simp: in_set_conv_nth)
      with p have "p = ((x # xs) ! 0, (x # xs) ! Suc k)" "0 < Suc k" "Suc k < length (x # xs)"
        by simp_all
      then show ?thesis by blast
    next
      assume "p \<in> ?B"
      then obtain i j where "p = (xs ! i, xs ! j)" "i < j" "j < length xs" by blast
      then have "p = ((x # xs) ! Suc i, (x # xs) ! Suc j)" "Suc i < Suc j" "Suc j < length (x # xs)"
        by simp_all
      then show ?thesis by blast
    qed
  qed
  with Cons show ?case by simp
qed

lemma ordered_pairs_append:
  "ordered_pairs (xs @ ys) = ordered_pairs xs \<union> set xs \<times> set ys \<union> ordered_pairs ys"
  by (induction xs) auto

lemma ordered_pairs_map_filter:
  "ordered_pairs (map f (filter P xs)) =
     {(f a, f b) | a b. (a, b) \<in> ordered_pairs xs \<and> P a \<and> P b}"
proof (induction xs)
  case Nil
  show ?case by simp
next
  case (Cons x xs)
  show ?case
  proof (cases "P x")
    case True
    have "ordered_pairs (map f (filter P (x # xs))) =
            Pair (f x) ` f ` {y \<in> set xs. P y} \<union>
            {(f a, f b) | a b. (a, b) \<in> ordered_pairs xs \<and> P a \<and> P b}"
      using True Cons by simp
    also have "\<dots> = {(f a, f b) | a b. (a, b) \<in> ordered_pairs (x # xs) \<and> P a \<and> P b}"
      using True by (simp only: ordered_pairs.simps) blast
    finally show ?thesis .
  next
    case False
    have "ordered_pairs (map f (filter P (x # xs))) =
            {(f a, f b) | a b. (a, b) \<in> ordered_pairs xs \<and> P a \<and> P b}"
      using False Cons by simp
    also have "\<dots> = {(f a, f b) | a b. (a, b) \<in> ordered_pairs (x # xs) \<and> P a \<and> P b}"
      using False by (simp only: ordered_pairs.simps) blast
    finally show ?thesis .
  qed
qed

lemma set_pairs_of: "set (pairs_of l) = norm_pair ` ordered_pairs l"
proof (induction l)
  case Nil
  show ?case by simp
next
  case (Cons u1 rest)
  have "set (pairs_of (u1 # rest)) = (\<lambda>u2. (min u1 u2, max u1 u2)) ` set rest \<union> set (pairs_of rest)"
    by simp
  also have "(\<lambda>u2. (min u1 u2, max u1 u2)) ` set rest = norm_pair ` Pair u1 ` set rest"
    by (simp add: image_image norm_pair_def)
  finally show ?case using Cons by (simp add: image_Un)
qed

lemma pairs_of_short: "length l \<le> 1 \<Longrightarrow> pairs_of l = []"
  by (cases l) (auto simp: Suc_le_eq)

lemma set_pairs_in_index:
  "set (pairs_in_index idx) = (\<Union>e \<in> set idx. norm_pair ` ordered_pairs (snd e))"
proof -
  have "(if length l > 1 then pairs_of l else []) = pairs_of l" for l
    using pairs_of_short [of l] by (cases "length l > 1") simp_all
  then have "pairs_in_index idx = concat (map pairs_of (map snd idx))"
    by (simp add: pairs_in_index_def)
  then show ?thesis by (simp add: set_pairs_of)
qed

lemma index_add_map_of:
  "map_of (index_add v uid idx) s =
     (if v = Some s \<and> s \<noteq> []
      then Some ((case map_of idx s of None \<Rightarrow> [] | Some users_list \<Rightarrow> users_list) @ [uid])
      else map_of idx s)"
  by (cases v) (auto simp: index_add_def update_conv')

lemma index_add_distinct: "distinct (map fst idx) \<Longrightarrow> distinct (map fst (index_add v uid idx))"
  by (cases v) (simp_all add: index_add_def distinct_update)

lemma index_fold_distinct:
  "distinct (map fst idx) \<Longrightarrow>
     distinct (map fst (fold (\<lambda>row idx. index_add (col row) (row_id row) idx) rows idx))"
  by (induction rows arbitrary: idx) (simp_all add: index_add_distinct)

lemma index_fold_map_of:
  "map_of (fold (\<lambda>row idx. index_add (col row) (row_id row) idx) rows idx) s =
     (if s \<noteq> [] \<and> (\<exists>r \<in> set rows. col r = Some s)
      then Some ((case map_of idx s of None \<Rightarrow> [] | Some users_list \<Rightarrow> users_list) @
                 map row_id (filter (\<lambda>r. col r = Some s) rows))
      else map_of idx s)"
proof (induction rows arbitrary: idx)
  case Nil
  show ?case by simp
next
  case (Cons row rows)
  show ?case
  proof (cases "col row = Some s \<and> s \<noteq> []")
    case True
    then show ?thesis
      by (simp add: Cons.IH index_add_map_of)
  next
    case False
    then show ?thesis
      by (auto simp: Cons.IH index_add_map_of)
  qed
qed

lemma build_index_entries:
  "(s, l) \<in> set (build_index col users_df) \<longleftrightarrow>
     s \<noteq> [] \<and> (\<exists>r \<in> set users_df. col r = Some s) \<and>
     l = map row_id (filter (\<lambda>r. col r = Some s) users_df)"
proof -
  have d: "distinct (map fst (build_index col users_df))"
    unfolding build_index_def by (rule index_fold_distinct) simp
  have "(s, l) \<in> set (build_index col users_df) \<longleftrightarrow> map_of (build_index col users_df) s = Some l"
    using d by simp
  also have "\<dots> \<longleftrightarrow> s \<noteq> [] \<and> (\<exists>r \<in> set users_df. col r = Some s) \<and>
     l = map row_id (filter (\<lambda>r. col r = Some s) users_df)"
    unfolding build_index_def index_fold_map_of by auto
  finally show ?thesis .
qed

lemma ordered_pairs_in_set: "(a, b) \<in> ordered_pairs xs \<Longrightarrow> a \<in> set xs \<and> b \<in> set xs"
  by (induction xs) auto

lemma truthy_iff: "truthy v \<longleftrightarrow> (\<exists>s. v = Some s \<and> s \<noteq> [])"
  by (cases v) (simp_all add: truthy_def)

lemma set_pairs_in_build_index:
  "set (pairs_in_index (build_index col users_df)) =
     {norm_pair (row_id a, row_id b) | a b.
        (a, b) \<in> ordered_pairs users_df \<and> truthy (col a) \<and> col a = col b}"
  (is "?L = ?R")
proof (intro set_eqI iffI)
  fix p assume "p \<in> ?L"
  then obtain s l where e: "(s, l) \<in> set (build_index col users_df)"
    and p: "p \<in> norm_pair ` ordered_pairs l"
    unfolding set_pairs_in_index by force
  from e have s: "s \<noteq> []" and l: "l = map row_id (filter (\<lambda>r. col r = Some s) users_df)"
    by (simp_all add: build_index_entries)
  from p obtain q where q: "q \<in> ordered_pairs l" and pq: "p = norm_pair q" by blast
  from q have "q \<in> {(row_id a, row_id b) | a b.
                   (a, b) \<in> ordered_pairs users_df \<and> col a = Some s \<and> col b = Some s}"
    unfolding l ordered_pairs_map_filter .
  then obtain a b where "q = (row_id a, row_id b)" "(a, b) \<in> ordered_pairs users_df"
    "col a = Some s" "col b = Some s"
    by blast
  then have "p = norm_pair (row_id a, row_id b) \<and> (a, b) \<in> ordered_pairs users_df \<and>
             truthy (col a) \<and> col a = col b"
    using s pq by (simp add: truthy_iff)
  then show "p \<in> ?R" by blast
next
  fix p assume "p \<in> ?R"
  then obtain a b where p: "p = norm_pair (row_id a, row_id b)"
    and ab: "(a, b) \<in> ordered_pairs users_df" and t: "truthy (col a)" and eq: "col a = col b"
    by blast
  from t obtain s where s: "col a = Some s" "s \<noteq> []" by (auto simp: truthy_iff)
  let ?l = "map row_id (filter (\<lambda>r. col r = Some s) users_df)"
  from ordered_pairs_in_set [OF ab] s have e: "(s, ?l) \<in> set (build_index col users_df)"
    unfolding build_index_entries by blast
  from ab s eq have "(row_id a, row_id b) \<in> {(row_id a, row_id b) | a b.
                   (a, b) \<in> ordered_pairs users_df \<and> col a = Some s \<and> col b = Some s}"
    by auto
  then have "(row_id a, row_id b) \<in> ordered_pairs ?l"
    unfolding ordered_pairs_map_filter .
  with p have "p \<in> norm_pair ` ordered_pairs (snd (s, ?l))" by simp
  with e show "p \<in> ?L" unfolding set_pairs_in_index by blast
qed

lemma potential_pairs_ordered:
  "potential_pairs users_df =
     {norm_pair (row_id a, row_id b) | a b. (a, b) \<in> ordered_pairs users_df \<and> shares_field a b}"
  unfolding potential_pairs_def added_pairs_def set_append set_pairs_in_build_index shares_field_def
  by auto

lemma potential_pairs_ids:
  assumes "(u1, u2) \<in> potential_pairs users_df"
  shows "u1 \<in> row_id ` set users_df" and "u2 \<in> row_id ` set users_df" and "u1 \<le> u2"
proof -
  from assms obtain a b where p: "(u1, u2) = norm_pair (row_id a, row_id b)"
    and ab: "(a, b) \<in> ordered_pairs users_df"
    unfolding potential_pairs_ordered by blast
  note ordered_pairs_in_set [OF ab]
  with p show "u1 \<in> row_id ` set users_df" "u2 \<in> row_id ` set users_df"
    by (auto simp: norm_pair_def min_def max_def split: if_splits)
  from p show "u1 \<le> u2" by (auto simp: norm_pair_def)
qed

lemma ordered_pairs_distinct:
  "distinct (map f xs) \<Longrightarrow> (a, b) \<in> ordered_pairs xs \<Longrightarrow> f a \<noteq> f b"
  by (induction xs) auto

lemma potential_pairs_strict:
  assumes "distinct (map row_id users_df)" and "(u1, u2) \<in> potential_pairs users_df"
  shows "u1 < u2"
proof -
  from assms(2) obtain a b where p: "(u1, u2) = norm_pair (row_id a, row_id b)"
    and ab: "(a, b) \<in> ordered_pairs users_df"
    unfolding potential_pairs_ordered by blast
  from ordered_pairs_distinct [OF assms(1) ab] p show ?thesis
    by (auto simp: norm_pair_def)
qed

lemma fold_count:
  "fold (\<lambda>field matches. if P field then matches + 1 else matches) fs (n :: nat) =
     n + length (filter P fs)"
  by (induction fs arbitrary: n) simp_all

lemma truthy_agree: "truthy v1 \<and> truthy v2 \<and> v1 = v2 \<longleftrightarrow> agree v1 v2"
  by (cases v1; cases v2) (auto simp: truthy_def agree_def)

lemma count_matches_agreeing: "count_matches d1 d2 = agreeing_fields d1 d2"
proof -
  have "count_matches d1 d2 =
          fold (\<lambda>field matches. if agree (field d1) (field d2) then matches + 1 else matches)
               [email, phone, name, address] 0"
    unfolding count_matches_def Let_def
    by (rule arg_cong [where f = "\<lambda>g. fold g [email, phone, name, address] 0"])
       (auto simp: fun_eq_iff truthy_agree [symmetric])
  then show ?thesis by (simp only: fold_count agreeing_fields_def add_0)
qed

lemma agreeing_le_comparable: "agreeing_fields d1 d2 \<le> comparable_fields d1 d2"
  unfolding agreeing_fields_def comparable_fields_def agree_def
  by (simp only: filter.simps) (simp add: le_Suc_eq)

lemma count_list_distinct: "distinct xs \<Longrightarrow> count_list xs p = (if p \<in> set xs then 1 else 0)"
  by (induction xs) auto

lemma visits_ids:
  assumes "visits order (potential_pairs users_df)"
  shows "\<forall>(a, b) \<in> set order. a \<in> row_id ` set users_df \<and> b \<in> row_id ` set users_df"
proof -
  from assms have "set order = potential_pairs users_df" by (simp add: visits_def)
  then show ?thesis using potential_pairs_ids(1,2) by blast
qed

lemma root_same_rel:
  assumes "uf_inv uf"
  shows "root uf a = root uf b \<longleftrightarrow> (a, b) \<in> same_rel uf"
proof -
  from rep_of_ex [OF assms, of a] obtain ra where ra: "rep_of (pmap uf) a = Some ra" by blast
  from rep_of_ex [OF assms, of b] obtain rb where rb: "rep_of (pmap uf) b = Some rb" by blast
  from ra rb show ?thesis by (simp add: root_def same_rel_def)
qed

lemma length_groups_of:
  "length (groups_of uf) = card (root uf ` fst ` set (parent uf))"
proof -
  have "set (map fst (groups_of uf)) = root uf ` fst ` set (parent uf)"
  proof (intro set_eqI iffI)
    fix r assume "r \<in> set (map fst (groups_of uf))"
    then obtain S where "(r, S) \<in> set (groups_of uf)" by auto
    then show "r \<in> root uf ` fst ` set (parent uf)" by (simp only: groups_of_entries)
  next
    fix r assume r: "r \<in> root uf ` fst ` set (parent uf)"
    then have "(r, {x \<in> fst ` set (parent uf). root uf x = r}) \<in> set (groups_of uf)"
      by (simp only: groups_of_entries simp_thms)
    then show "r \<in> set (map fst (groups_of uf))" by force
  qed
  then have "card (root uf ` fst ` set (parent uf)) = card (set (map fst (groups_of uf)))"
    by simp
  also have "\<dots> = length (map fst (groups_of uf))"
    by (rule distinct_card) (rule groups_of_distinct)
  finally show ?thesis by simp
qed

lemma user_groups_of_entry:
  assumes "(k, members) \<in> set (user_groups_of uf)"
  shows "\<exists>r \<in> root uf ` fst ` set (parent uf).
           set members = {x \<in> fst ` set (parent uf). root uf x = r} \<and>
           members = sorted_list_of_set (set members) \<and> k = Min (set members) \<and>
           set members \<noteq> {}"
proof -
  from assms obtain S where S: "S \<in> set (map snd (groups_of uf))"
    and km: "(k, members) = canonical S"
    unfolding user_groups_of_def by auto
  from S obtain r where e: "(r, S) \<in> set (groups_of uf)" by auto
  then have r: "r \<in> root uf ` fst ` set (parent uf)"
    and Seq: "S = {x \<in> fst ` set (parent uf). root uf x = r}"
    by (simp_all only: groups_of_entries)
  note fin = groups_of_members(2) [OF S] and ne = groups_of_members(1) [OF S]
  from km have k: "k = Min S" and m: "members = sorted_list_of_set S"
    by (simp_all add: canonical_def)
  from m fin have sm: "set members = S" by simp
  from r Seq k m sm ne show ?thesis by auto
qed

lemma user_groups_of_cover:
  assumes "x \<in> fst ` set (parent uf)"
  shows "\<exists>k members. (k, members) \<in> set (user_groups_of uf) \<and> x \<in> set members"
proof -
  let ?S = "{y \<in> fst ` set (parent uf). root uf y = root uf x}"
  from assms have e: "(root uf x, ?S) \<in> set (groups_of uf)"
    by (simp only: groups_of_entries) blast
  then have "snd (root uf x, ?S) \<in> snd ` set (groups_of uf)" by (rule imageI)
  then have S: "?S \<in> set (map snd (groups_of uf))" by simp
  then have "canonical ?S \<in> canonical ` set (map snd (groups_of uf))" by (rule imageI)
  then have "canonical ?S \<in> set (user_groups_of uf)"
    unfolding user_groups_of_def by (simp only: set_map)
  moreover have "x \<in> set (snd (canonical ?S))"
    using groups_of_members(2) [OF S] assms by (simp add: canonical_def)
  ultimately show ?thesis by (metis prod.collapse)
qed

lemma user_groups_of_unique:
  assumes "(k, members) \<in> set (user_groups_of uf)" and "(k', members') \<in> set (user_groups_of uf)"
    and "x \<in> set members" and "x \<in> set members'"
  shows "k = k' \<and> members = members'"
proof -
  from user_groups_of_entry [OF assms(1)] obtain r where
    1: "set members = {x \<in> fst ` set (parent uf). root uf x = r}"
    "members = sorted_list_of_set (set members)" "k = Min (set members)" by blast
  from user_groups_of_entry [OF assms(2)] obtain r' where
    2: "set members' = {x \<in> fst ` set (parent uf). root uf x = r'}"
    "members' = sorted_list_of_set (set members')" "k' = Min (set members')" by blast
  from assms(3) 1(1) have "root uf x = r" by blast
  moreover from assms(4) 2(1) have "root uf x = r'" by blast
  ultimately have "set members = set members'" using 1(1) 2(1) by simp
  with 1(2,3) 2(2,3) show ?thesis by metis
qed

lemma user_groups_of_keys: "distinct (map fst (user_groups_of uf))"
proof -
  have "map fst (user_groups_of uf) = map Min (map snd (groups_of uf))"
    by (simp add: user_groups_of_def canonical_def comp_def)
  then show ?thesis by (simp only: groups_of_Min_distinct)
qed

lemma matched_judged: "matched ud = judged_same ud"
  by (auto simp: fun_eq_iff matched_def judged_same_def same_person_def count_matches_agreeing
      split: option.splits)

lemma dedup_result:
  assumes "visits order (potential_pairs users_df)"
  shows "\<exists>uf1. uf_inv uf1 \<and> fst ` set (parent uf1) = row_id ` set users_df \<and>
           same_rel uf1 = equiv_closure {p \<in> set order. matched (user_data users_df) p} \<and>
           deduplicate_users order users_df = Inr (length (groups_of uf1), user_groups_of uf1)"
  using dedup_run [OF visits_ids [OF assms]] unfolding user_groups_of_def by blast

section \<open>Correctness of top-customer resolution\<close>

lemma fold_members:
  "fold (\<lambda>uid m. m(uid \<mapsto> c)) members m uid' = (if uid' \<in> set members then Some c else m uid')"
  by (induction members arbitrary: m) auto

lemma fold_groups:
  "fold (\<lambda>(canonical, members) m. fold (\<lambda>uid m. m(uid \<mapsto> canonical)) members m) user_groups m uid =
     (case group_of_id user_groups uid of Some c \<Rightarrow> Some c | None \<Rightarrow> m uid)"
proof -
  define F :: "int \<times> int list \<Rightarrow> (int \<rightharpoonup> int) \<Rightarrow> (int \<rightharpoonup> int)"
    where "F = (\<lambda>(canonical, members) m. fold (\<lambda>uid m. m(uid \<mapsto> canonical)) members m)"
  have F: "F g m uid = (if uid \<in> set (snd g) then Some (fst g) else m uid)" for g m
    unfolding F_def by (cases g) (simp only: prod.case fst_conv snd_conv fold_members)
  have "fold F user_groups m uid =
          (case group_of_id user_groups uid of Some c \<Rightarrow> Some c | None \<Rightarrow> m uid)"
  proof (induction user_groups arbitrary: m)
    case Nil
    show ?case by simp
  next
    case (Cons g gs)
    have "fold F (g # gs) m uid = fold F gs (F g m) uid" by simp
    also have "\<dots> = (case group_of_id gs uid of Some c \<Rightarrow> Some c | None \<Rightarrow> F g m uid)"
      by (rule Cons.IH)
    also have "\<dots> = (case group_of_id (g # gs) uid of Some c \<Rightarrow> Some c | None \<Rightarrow> m uid)"
      by (simp only: F group_of_id.simps split: option.split) simp
    finally show ?case .
  qed
  then show ?thesis unfolding F_def .
qed

lemma user_to_canonical_eq: "user_to_canonical user_groups uid = group_of_id user_groups uid"
  unfolding user_to_canonical_def fold_groups by (simp split: option.split)

lemma canonical_of_utc:
  "(case user_to_canonical user_groups uid of None \<Rightarrow> uid | Some c \<Rightarrow> c) = canonical_of user_groups uid"
  by (simp only: user_to_canonical_eq canonical_of_def)

lemma cs_fold_distinct:
  "distinct (map fst cs) \<Longrightarrow>
     distinct (map fst (fold (\<lambda>item cs. AList.update (canon (fst item))
                  (add (case map_of cs (canon (fst item)) of None \<Rightarrow> z | Some v \<Rightarrow> v) (snd item)) cs)
               items cs))"
  by (induction items arbitrary: cs) (simp_all add: distinct_update)

lemma cs_fold_map_of:
  "map_of (fold (\<lambda>item cs. AList.update (canon (fst item))
                  (add (case map_of cs (canon (fst item)) of None \<Rightarrow> z | Some v \<Rightarrow> v) (snd item)) cs)
               items cs) c =
     (if c \<in> canon ` fst ` set items
      then Some (fold (\<lambda>item acc. add acc (snd item)) (filter (\<lambda>item. canon (fst item) = c) items)
                   (case map_of cs c of None \<Rightarrow> z | Some v \<Rightarrow> v))
      else map_of cs c)"
proof (induction items arbitrary: cs)
  case Nil
  show ?case by simp
next
  case (Cons item items)
  show ?case
  proof (cases "canon (fst item) = c")
    case True
    have e: "c \<notin> canon ` fst ` set items \<Longrightarrow> filter (\<lambda>item. canon (fst item) = c) items = []"
      by (auto simp: filter_empty_conv)
    from True e show ?thesis by (simp add: Cons.IH update_conv')
  next
    case False
    then show ?thesis by (auto simp: Cons.IH update_conv')
  qed
qed

lemma canonical_spending_alt:
  "canonical_spending ops (user_to_canonical user_groups) items =
     fold (\<lambda>item cs. AList.update (canonical_of user_groups (fst item))
             (fadd ops (case map_of cs (canonical_of user_groups (fst item)) of
                          None \<Rightarrow> fzero ops | Some v \<Rightarrow> v) (snd item)) cs)
          items []"
proof -
  have "(\<lambda>(uid, spending) cs.
             let canonical = (case user_to_canonical user_groups uid of None \<Rightarrow> uid | Some c \<Rightarrow> c)
             in AList.update canonical
                  (fadd ops (case map_of cs canonical of None \<Rightarrow> fzero ops | Some v \<Rightarrow> v) spending)
                  cs) =
        (\<lambda>item cs. AList.update (canonical_of user_groups (fst item))
             (fadd ops (case map_of cs (canonical_of user_groups (fst item)) of
                          None \<Rightarrow> fzero ops | Some v \<Rightarrow> v) (snd item)) cs)"
    by (simp add: fun_eq_iff canonical_of_utc Let_def split: prod.split)
  then show ?thesis unfolding canonical_spending_def by (rule arg_cong)
qed

lemma canonical_spending_entries:
  "(c, v) \<in> set (canonical_spending ops (user_to_canonical user_groups) (user_spending ops orders_df))
     \<longleftrightarrow> c \<in> canonical_of user_groups ` user_id ` set orders_df \<and>
          v = aggregated ops orders_df user_groups c"
proof -
  let ?cs = "canonical_spending ops (user_to_canonical user_groups) (user_spending ops orders_df)"
  have d: "distinct (map fst ?cs)"
    unfolding canonical_spending_alt by (rule cs_fold_distinct) simp
  have keys: "fst ` set (user_spending ops orders_df) = user_id ` set orders_df"
    by (simp add: user_spending_def image_image)
  have "(c, v) \<in> set ?cs \<longleftrightarrow> map_of ?cs c = Some v" using d by simp
  also have "\<dots> \<longleftrightarrow> c \<in> canonical_of user_groups ` user_id ` set orders_df \<and>
          v = aggregated ops orders_df user_groups c"
    unfolding canonical_spending_alt cs_fold_map_of keys aggregated_def by auto
  finally show ?thesis .
qed

lemma max_loop_in: "max_loop ops best items \<in> set (best # items)"
  by (induction items arbitrary: best) (auto split: if_splits)

lemma max_loop_max:
  assumes irrefl: "\<And>a. \<not> fgt ops a a"
    and trans: "\<And>a b c. fgt ops a b \<Longrightarrow> fgt ops b c \<Longrightarrow> fgt ops a c"
    and negtrans: "\<And>a b c. \<not> fgt ops a b \<Longrightarrow> \<not> fgt ops b c \<Longrightarrow> \<not> fgt ops a c"
  shows "(\<And>x. x \<in> set seen \<Longrightarrow> \<not> fgt ops (snd x) (snd best)) \<Longrightarrow>
         x \<in> set seen \<union> set (best # items) \<Longrightarrow>
         \<not> fgt ops (snd x) (snd (max_loop ops best items))"
proof (induction items arbitrary: best seen x)
  case Nil
  from Nil.prems(2) have "x \<in> set seen \<or> x = best" by auto
  then show ?case
  proof
    assume "x \<in> set seen"
    then show ?thesis using Nil.prems(1) by simp
  next
    assume "x = best"
    then show ?thesis by (simp add: irrefl)
  qed
next
  case (Cons item items)
  let ?b = "if fgt ops (snd item) (snd best) then item else best"
  have inv: "\<not> fgt ops (snd y) (snd ?b)" if y: "y \<in> set (item # best # seen)" for y
  proof (cases "fgt ops (snd item) (snd best)")
    case True
    have nb: "\<not> fgt ops (snd best) (snd item)"
      using True trans [of "snd best" "snd item" "snd best"] irrefl by blast
    from y consider "y = item" | "y = best" | "y \<in> set seen" by auto
    then show ?thesis
    proof cases
      case 1
      with True show ?thesis by (simp add: irrefl)
    next
      case 2
      with True nb show ?thesis by simp
    next
      case 3
      from Cons.prems(1) [OF 3] nb have "\<not> fgt ops (snd y) (snd item)" by (rule negtrans)
      with True show ?thesis by simp
    qed
  next
    case False
    from y consider "y = item" | "y = best" | "y \<in> set seen" by auto
    then show ?thesis
    proof cases
      case 1
      with False show ?thesis by simp
    next
      case 2
      with False show ?thesis by (simp add: irrefl)
    next
      case 3
      with False Cons.prems(1) show ?thesis by simp
    qed
  qed
  from Cons.prems(2) have "x \<in> set (item # best # seen) \<union> set (?b # items)" by auto
  from Cons.IH [of "item # best # seen" ?b x, OF inv this] show ?case by simp
qed

lemma canonical_spending_distinct:
  "distinct (map fst (canonical_spending ops (user_to_canonical user_groups) items))"
  unfolding canonical_spending_alt by (rule cs_fold_distinct) simp

lemma map_of_tabulate: "uid \<in> set xs \<Longrightarrow> map_of (map (\<lambda>k. (k, f k)) xs) uid = Some (f uid)"
  by (induction xs) auto

lemma user_spending_lookup:
  assumes "uid \<in> user_id ` set orders_df"
  shows "map_of (user_spending ops orders_df) uid =
           Some (fsum ops (map paid_price (filter (\<lambda>row. user_id row = uid) orders_df)))"
proof -
  from assms have "uid \<in> set (sorted_list_of_set (set (map user_id orders_df)))" by simp
  then show ?thesis unfolding user_spending_def by (rule map_of_tabulate)
qed

section \<open>Properties of the disjoint-set structure\<close>

text \<open>
  Claim C2. After any sequence of \<open>find\<close> and \<open>union\<close> calls on a fresh structure, the
  test \<^verbatim>\<open>find(x) == find(y)\<close> holds exactly when \<open>x\<close> and \<open>y\<close> are related by the
  reflexive, symmetric and transitive closure of the pairs passed to \<open>union\<close>. This holds
  for all identifiers, seen or not: an unseen identifier is alone in its group.
\<close>

theorem find_eq_iff_connected:
  "\<exists>uf. run_calls cs UnionFind_init = Inr uf \<and>
     (\<forall>x y. same_root uf x y \<longleftrightarrow> (x, y) \<in> (union_pairs cs \<union> (union_pairs cs)\<inverse>)\<^sup>*)"
proof -
  from reachable [of cs] obtain uf where
    r: "run_calls cs UnionFind_init = Inr uf" and inv: "uf_inv uf"
    and rel: "same_rel uf = (union_pairs cs \<union> (union_pairs cs)\<inverse>)\<^sup>*" by blast
  from same_root_iff [OF inv] rel have
    "\<forall>x y. same_root uf x y \<longleftrightarrow> (x, y) \<in> (union_pairs cs \<union> (union_pairs cs)\<inverse>)\<^sup>*"
    by simp
  with r show ?thesis by blast
qed

theorem find_eq_iff_connected_witness:
  "run_calls [Union 101 102, Union 102 103, Find 7] UnionFind_init =
     Inr \<lparr>parent = [(101, 101), (102, 101), (103, 101), (7, 7)],
          rank = [(101, 1), (102, 0), (103, 0), (7, 0)]\<rparr> \<and>
   same_root \<lparr>parent = [(101, 101), (102, 101), (103, 101), (7, 7)],
              rank = [(101, 1), (102, 0), (103, 0), (7, 0)]\<rparr> 103 101 \<and>
   (103 :: int, 101 :: int) \<in> ({(101, 102), (102, 103)} \<union> {(101, 102), (102, 103)}\<inverse>)\<^sup>* \<and>
   \<not> same_root \<lparr>parent = [(101, 101), (102, 101), (103, 101), (7, 7)],
              rank = [(101, 1), (102, 0), (103, 0), (7, 0)]\<rparr> 103 7 \<and>
   (103 :: int, 7 :: int) \<notin> ({(101, 102), (102, 103)} \<union> {(101, 102), (102, 103)}\<inverse>)\<^sup>*"
proof -
  let ?U = "\<lparr>parent = [(101, 101), (102, 101), (103, 101), (7, 7)],
             rank = [(101, 1), (102, 0), (103, 0), (7, 0)]\<rparr>"
  let ?cs = "[Union 101 102, Union 102 103, Find 7]"
  have run: "run_calls ?cs UnionFind_init = Inr ?U"
    by (simp add: UnionFind_init_def union_def find.simps)
  have pairs: "union_pairs ?cs = {(101, 102), (102, 103)}" by simp
  from find_eq_iff_connected [of ?cs] run pairs
  have iff: "\<And>x y. same_root ?U x y \<longleftrightarrow>
               (x, y) \<in> ({(101, 102), (102, 103)} \<union> {(101, 102), (102, 103)}\<inverse>)\<^sup>*"
    by simp
  have a: "same_root ?U 103 101" by (simp add: same_root_def find.simps)
  have b: "\<not> same_root ?U 103 7" by (simp add: same_root_def find.simps)
  from run a b iff [of 103 101] iff [of 103 7] show ?thesis by blast
qed

text \<open>
  Claim C8. After any sequence of calls on a fresh structure, \<open>find\<close> returns for every
  identifier, its result is a self-parented root, an unseen identifier becomes its own
  singleton root with rank 0, \<open>union\<close> returns without error for every pair, and the
  parent links without the self-loops of roots form no cycle.
\<close>

theorem find_union_total:
  "\<exists>uf. run_calls cs UnionFind_init = Inr uf \<and>
     (\<forall>x. \<exists>r uf'. find x uf = Some (r, uf') \<and> map_of (parent uf') r = Some r \<and>
            (x \<notin> fst ` set (parent uf) \<longrightarrow>
               r = x \<and> uf' = uf\<lparr>parent := parent uf @ [(x, x)], rank := rank uf @ [(x, 0)]\<rparr>)) \<and>
     (\<forall>x y. \<exists>uf'. union x y uf = Inr uf') \<and>
     acyclic {(a, b). map_of (parent uf) a = Some b \<and> a \<noteq> b}"
proof -
  from reachable [of cs] obtain uf where
    r: "run_calls cs UnionFind_init = Inr uf" and inv: "uf_inv uf" by blast
  have f: "\<exists>r uf'. find x uf = Some (r, uf') \<and> map_of (parent uf') r = Some r \<and>
            (x \<notin> fst ` set (parent uf) \<longrightarrow>
               r = x \<and> uf' = uf\<lparr>parent := parent uf @ [(x, x)], rank := rank uf @ [(x, 0)]\<rparr>)" for x
  proof -
    from find_spec [OF inv, of x] obtain r uf' where
      fx: "find x uf = Some (r, uf')" and post: "find_post uf x r uf'" by blast
    from post have root: "map_of (parent uf') r = Some r" by (simp add: find_post_def pmap_def)
    have "r = x \<and> uf' = uf\<lparr>parent := parent uf @ [(x, x)], rank := rank uf @ [(x, 0)]\<rparr>"
      if new: "x \<notin> fst ` set (parent uf)"
    proof -
      from inv new have "x \<notin> fst ` set (rank uf)" by (simp add: uf_inv_def)
      then have "AList.update x 0 (rank uf) = rank uf @ [(x, 0)]" by (rule update_fresh)
      with find_fresh [OF new] fx show ?thesis by simp
    qed
    with fx root show ?thesis by blast
  qed
  have u: "\<exists>uf'. union x y uf = Inr uf'" for x y
    using union_spec [OF inv, of x y] by blast
  from r f u uf_inv_acyclic [OF inv] show ?thesis by blast
qed

theorem find_union_total_witness:
  "run_calls [Union 1 2, Union 3 4, Union 1 3] UnionFind_init =
     Inr \<lparr>parent = [(1, 1), (2, 1), (3, 1), (4, 3)], rank = [(1, 2), (2, 0), (3, 1), (4, 0)]\<rparr> \<and>
   (5 :: int) \<notin> fst ` set [(1, 1), (2, 1), (3, 1), (4, 3 :: int)] \<and>
   (\<exists>r uf'. find 5 \<lparr>parent = [(1, 1), (2, 1), (3, 1), (4, 3)],
                     rank = [(1, 2), (2, 0), (3, 1), (4, 0)]\<rparr> = Some (r, uf') \<and>
       map_of (parent uf') r = Some r \<and> r = 5 \<and>
       uf' = \<lparr>parent = [(1, 1), (2, 1), (3, 1), (4, 3), (5, 5)],
              rank = [(1, 2), (2, 0), (3, 1), (4, 0), (5, 0)]\<rparr>) \<and>
   (\<exists>uf'. union 2 4 \<lparr>parent = [(1, 1), (2, 1), (3, 1), (4, 3)],
                     rank = [(1, 2), (2, 0), (3, 1), (4, 0)]\<rparr> = Inr uf') \<and>
   acyclic {(a :: int, b). map_of [(1, 1), (2, 1), (3, 1), (4, 3 :: int)] a = Some b \<and> a \<noteq> b}"
proof -
  let ?U = "\<lparr>parent = [(1, 1), (2, 1), (3, 1), (4, 3)], rank = [(1, 2), (2, 0), (3, 1), (4, 0)]\<rparr>"
  let ?cs = "[Union 1 2, Union 3 4, Union 1 3]"
  have run: "run_calls ?cs UnionFind_init = Inr ?U"
    by (simp add: UnionFind_init_def union_def find.simps)
  have new: "5 \<notin> fst ` set (parent ?U)" by simp
  have new': "(5 :: int) \<notin> fst ` set [(1, 1), (2, 1), (3, 1), (4, 3 :: int)]" by simp
  from find_union_total [of ?cs] run
  have f: "\<And>x. \<exists>r uf'. find x ?U = Some (r, uf') \<and> map_of (parent uf') r = Some r \<and>
            (x \<notin> fst ` set (parent ?U) \<longrightarrow>
               r = x \<and> uf' = ?U\<lparr>parent := parent ?U @ [(x, x)], rank := rank ?U @ [(x, 0)]\<rparr>)"
    and u: "\<And>x y. \<exists>uf'. union x y ?U = Inr uf'"
    and ac: "acyclic {(a, b). map_of (parent ?U) a = Some b \<and> a \<noteq> b}"
    by auto
  from ac have ac': "acyclic {(a :: int, b). map_of [(1, 1), (2, 1), (3, 1), (4, 3 :: int)] a = Some b \<and> a \<noteq> b}"
    by (simp only: UnionFind.simps)
  from f [of 5] new obtain r uf' where
    "find 5 ?U = Some (r, uf')" "map_of (parent uf') r = Some r" "r = 5"
    "uf' = ?U\<lparr>parent := parent ?U @ [(5, 5)], rank := rank ?U @ [(5, 0)]\<rparr>" by blast
  then have five: "\<exists>r uf'. find 5 ?U = Some (r, uf') \<and>
       map_of (parent uf') r = Some r \<and> r = 5 \<and>
       uf' = \<lparr>parent = [(1, 1), (2, 1), (3, 1), (4, 3), (5, 5)],
              rank = [(1, 2), (2, 0), (3, 1), (4, 0), (5, 0)]\<rparr>" by simp
  from run new' five u [of 2 4] ac' show ?thesis by blast
qed

text \<open>
  Claim C9. In a state reached by calls on a fresh structure, a second \<open>find(x)\<close> returns
  the same root and changes nothing, also after further \<open>find\<close> calls on any identifiers;
  \<open>union(x, x)\<close> does what one \<open>find(x)\<close> does; and \<open>union(x, y)\<close> on two identifiers
  with the same root only performs the two \<open>find\<close> calls and leaves the root of every
  identifier, hence the groups, as they were.
\<close>

theorem find_stable_union_noop:
  assumes reach: "run_calls cs UnionFind_init = Inr uf"
  shows "\<exists>r uf1. find x uf = Some (r, uf1) \<and> find x uf1 = Some (r, uf1) \<and>
           (\<exists>uf2 uf3. run_calls (map Find zs) uf1 = Inr uf2 \<and> find x uf2 = Some (r, uf3)) \<and>
           union x x uf = Inr uf1 \<and>
           (\<forall>y. same_root uf x y \<longrightarrow>
              (\<exists>uf2. find y uf1 = Some (r, uf2) \<and> union x y uf = Inr uf2 \<and>
                 (\<forall>z. map_option fst (find z uf2) = map_option fst (find z uf)) \<and>
                 (\<forall>z w. same_root uf2 z w = same_root uf z w)))"
proof -
  from reachable [of cs] reach have inv: "uf_inv uf" by auto
  from find_spec [OF inv, of x] obtain r uf1 where
    f1: "find x uf = Some (r, uf1)" and p1: "find_post uf x r uf1" by blast
  from p1 have inv1: "uf_inv uf1" and rep1: "\<And>w. rep_of (pmap uf1) w = rep_of (pmap uf) w"
    and rx: "rep_of (pmap uf) x = Some r"
    by (simp_all add: find_post_def)
  note again = find_again [OF p1]
  from run_finds [OF inv1, of zs] obtain uf2 where
    rf: "run_calls (map Find zs) uf1 = Inr uf2" and inv2: "uf_inv uf2"
    and rep2: "\<forall>z. rep_of (pmap uf2) z = rep_of (pmap uf1) z" by blast
  from find_spec [OF inv2, of x] obtain r' uf3 where
    f3: "find x uf2 = Some (r', uf3)" and p3: "find_post uf2 x r' uf3" by blast
  from p3 rep2 rep1 rx have "r' = r" by (simp add: find_post_def)
  with f3 rf have mid: "\<exists>uf2 uf3. run_calls (map Find zs) uf1 = Inr uf2 \<and> find x uf2 = Some (r, uf3)"
    by blast
  have uxx: "union x x uf = Inr uf1" using f1 again by (simp add: union_def)
  have same: "\<exists>uf2. find y uf1 = Some (r, uf2) \<and> union x y uf = Inr uf2 \<and>
                 (\<forall>z. map_option fst (find z uf2) = map_option fst (find z uf)) \<and>
                 (\<forall>z w. same_root uf2 z w = same_root uf z w)"
    if sr: "same_root uf x y" for y
  proof -
    from find_spec [OF inv1, of y] obtain ry uf2 where
      f2: "find y uf1 = Some (ry, uf2)" and p2: "find_post uf1 y ry uf2" by blast
    from sr f1 f2 have "ry = r" by (simp add: same_root_def)
    from p2 have inv2: "uf_inv uf2" and rep2: "\<And>w. rep_of (pmap uf2) w = rep_of (pmap uf1) w"
      by (simp_all add: find_post_def)
    have u: "union x y uf = Inr uf2" using f1 f2 \<open>ry = r\<close> by (simp add: union_def)
    have roots: "map_option fst (find z uf2) = map_option fst (find z uf)" for z
      by (simp add: find_root [OF inv2] find_root [OF inv] rep2 rep1)
    have rel: "same_root uf2 z w = same_root uf z w" for z w
      by (simp add: same_root_iff [OF inv2] same_root_iff [OF inv] same_rel_def rep2 rep1)
    from f2 \<open>ry = r\<close> u roots rel show ?thesis by blast
  qed
  from f1 again mid uxx same show ?thesis by blast
qed

theorem find_stable_union_noop_witness:
  "run_calls [Union 1 2, Union 3 4, Union 1 3] UnionFind_init =
     Inr \<lparr>parent = [(1, 1), (2, 1), (3, 1), (4, 3)], rank = [(1, 2), (2, 0), (3, 1), (4, 0)]\<rparr> \<and>
   same_root \<lparr>parent = [(1, 1), (2, 1), (3, 1), (4, 3)],
              rank = [(1, 2), (2, 0), (3, 1), (4, 0)]\<rparr> 4 2 \<and>
   (\<exists>uf2. union 4 2 \<lparr>parent = [(1, 1), (2, 1), (3, 1), (4, 3)],
                     rank = [(1, 2), (2, 0), (3, 1), (4, 0)]\<rparr> = Inr uf2 \<and>
      (\<forall>z. map_option fst (find z uf2) =
           map_option fst (find z \<lparr>parent = [(1, 1), (2, 1), (3, 1), (4, 3)],
                                   rank = [(1, 2), (2, 0), (3, 1), (4, 0)]\<rparr>)))"
proof -
  let ?U = "\<lparr>parent = [(1, 1), (2, 1), (3, 1), (4, 3)], rank = [(1, 2), (2, 0), (3, 1), (4, 0)]\<rparr>"
  let ?cs = "[Union 1 2, Union 3 4, Union 1 3]"
  have run: "run_calls ?cs UnionFind_init = Inr ?U"
    by (simp add: UnionFind_init_def union_def find.simps)
  have sr: "same_root ?U 4 2" by (simp add: same_root_def find.simps)
  from find_stable_union_noop [OF run, of 4 "[]"] sr
  have "\<exists>uf2. union 4 2 ?U = Inr uf2 \<and>
          (\<forall>z. map_option fst (find z uf2) = map_option fst (find z ?U))"
    by blast
  with run sr show ?thesis by blast
qed

section \<open>Properties of user deduplication\<close>

text \<open>
  Claim C1. Two records are declared the same person exactly when at least three of the
  four fields agree, a field agreeing when both records have a present, non-empty value
  and the values are equal. A pair agreeing on exactly two fields is not declared the same
  person, nor is a pair with fewer than three comparable fields. In the loop of step 5,
  whatever the order in which the set of candidate pairs is visited, every pair has its
  two records in \<open>user_data\<close>, and the loop makes exactly the calls \<open>union(u1, u2)\<close> for
  the visited pairs whose records agree on at least three fields, in the order visited.
\<close>

theorem same_person_iff_three_fields:
  "(same_person d1 d2 \<longleftrightarrow> 3 \<le> agreeing_fields d1 d2) \<and>
   (agreeing_fields d1 d2 = 2 \<longrightarrow> \<not> same_person d1 d2) \<and>
   (comparable_fields d1 d2 < 3 \<longrightarrow> \<not> same_person d1 d2) \<and>
   (visits order (potential_pairs users_df) \<longrightarrow>
      (\<forall>(u1, u2) \<in> set order. user_data users_df u1 \<noteq> None \<and> user_data users_df u2 \<noteq> None) \<and>
      match_loop (user_data users_df) order uf =
        run_calls (map (\<lambda>(u1, u2). Union u1 u2) (filter (judged_same (user_data users_df)) order)) uf)"
proof -
  have 1: "same_person d1 d2 \<longleftrightarrow> 3 \<le> agreeing_fields d1 d2"
    by (simp add: same_person_def count_matches_agreeing)
  have 2: "agreeing_fields d1 d2 = 2 \<longrightarrow> \<not> same_person d1 d2"
    using 1 by simp
  have 3: "comparable_fields d1 d2 < 3 \<longrightarrow> \<not> same_person d1 d2"
    using 1 agreeing_le_comparable [of d1 d2] by simp
  have 4: "(\<forall>(u1, u2) \<in> set order. user_data users_df u1 \<noteq> None \<and> user_data users_df u2 \<noteq> None) \<and>
      match_loop (user_data users_df) order uf =
        run_calls (map (\<lambda>(u1, u2). Union u1 u2) (filter (judged_same (user_data users_df)) order)) uf"
    if v: "visits order (potential_pairs users_df)"
  proof -
    from visits_ids [OF v]
    have dom: "\<forall>(a, b) \<in> set order. a \<in> dom (user_data users_df) \<and> b \<in> dom (user_data users_df)"
      by (simp only: dom_user_data)
    then have "\<forall>(u1, u2) \<in> set order. user_data users_df u1 \<noteq> None \<and> user_data users_df u2 \<noteq> None"
      by blast
    moreover from match_loop_run [OF dom, of uf]
    have "match_loop (user_data users_df) order uf =
        run_calls (map (\<lambda>(u1, u2). Union u1 u2) (filter (judged_same (user_data users_df)) order)) uf"
      by (simp only: union_calls_def matched_judged)
    ultimately show ?thesis by (rule conjI)
  qed
  from 1 2 3 4 show ?thesis by blast
qed

theorem same_person_iff_three_fields_witness:
  "visits [(101, 102)] (potential_pairs scenario_users) \<and>
   agreeing_fields
     \<lparr>email = Some ''a@x.com'', phone = Some ''555'', name = Some ''john'', address = Some ''1 st''\<rparr>
     \<lparr>email = Some ''a@x.com'', phone = Some ''555'', name = Some ''jon'', address = Some ''1 st''\<rparr> = 3 \<and>
   same_person
     \<lparr>email = Some ''a@x.com'', phone = Some ''555'', name = Some ''john'', address = Some ''1 st''\<rparr>
     \<lparr>email = Some ''a@x.com'', phone = Some ''555'', name = Some ''jon'', address = Some ''1 st''\<rparr> \<and>
   agreeing_fields
     \<lparr>email = Some ''a@x.com'', phone = Some ''555'', name = None, address = Some ''''\<rparr>
     \<lparr>email = Some ''a@x.com'', phone = Some ''555'', name = Some ''jon'', address = Some ''1 st''\<rparr> = 2 \<and>
   comparable_fields
     \<lparr>email = Some ''a@x.com'', phone = Some ''555'', name = None, address = Some ''''\<rparr>
     \<lparr>email = Some ''a@x.com'', phone = Some ''555'', name = Some ''jon'', address = Some ''1 st''\<rparr> < 3 \<and>
   \<not> same_person
     \<lparr>email = Some ''a@x.com'', phone = Some ''555'', name = None, address = Some ''''\<rparr>
     \<lparr>email = Some ''a@x.com'', phone = Some ''555'', name = Some ''jon'', address = Some ''1 st''\<rparr> \<and>
   match_loop (user_data scenario_users) [(101, 102)] UnionFind_init =
     run_calls [Union 101 102] UnionFind_init"
proof -
  let ?a = "\<lparr>email = Some ''a@x.com'', phone = Some ''555'', name = Some ''john'', address = Some ''1 st''\<rparr>"
  let ?b = "\<lparr>email = Some ''a@x.com'', phone = Some ''555'', name = Some ''jon'', address = Some ''1 st''\<rparr>"
  let ?c = "\<lparr>email = Some ''a@x.com'', phone = Some ''555'', name = None, address = Some ''''\<rparr>"
  have v: "visits [(101, 102)] (potential_pairs scenario_users)" by code_simp
  have three: "agreeing_fields ?a ?b = 3" by code_simp
  have two: "agreeing_fields ?c ?b = 2" by code_simp
  have cmp: "comparable_fields ?c ?b < 3" by code_simp
  have f: "filter (judged_same (user_data scenario_users)) [(101, 102)] = [(101, 102)]"
    by code_simp
  from same_person_iff_three_fields [of ?a ?b "[(101, 102)]" scenario_users UnionFind_init] three v
  have 1: "same_person ?a ?b"
    and 2: "match_loop (user_data scenario_users) [(101, 102)] UnionFind_init =
              run_calls (map (\<lambda>(u1, u2). Union u1 u2)
                (filter (judged_same (user_data scenario_users)) [(101, 102)])) UnionFind_init"
    by simp_all
  from 2 have ml: "match_loop (user_data scenario_users) [(101, 102)] UnionFind_init =
     run_calls [Union 101 102] UnionFind_init" by (simp only: f list.map prod.case)
  from same_person_iff_three_fields [of ?c ?b "[(101, 102)]" scenario_users UnionFind_init] two
  have 3: "\<not> same_person ?c ?b" by simp
  from v three 1 two cmp 3 ml show ?thesis by blast
qed

text \<open>
  Claim C4. The set \<open>potential_pairs\<close> holds exactly the pairs (smaller identifier,
  larger identifier) of two rows at different positions that share a present, non-empty
  value in some column; every stored pair has its smaller identifier first; and a loop
  over the set visits each stored pair once and no other pair.
\<close>

theorem potential_pairs_exact:
  "potential_pairs users_df =
     {(min (row_id (users_df ! i)) (row_id (users_df ! j)),
       max (row_id (users_df ! i)) (row_id (users_df ! j))) | i j.
        i < j \<and> j < length users_df \<and> shares_field (users_df ! i) (users_df ! j)} \<and>
   (\<forall>(u1, u2) \<in> potential_pairs users_df. u1 \<le> u2) \<and>
   (visits order (potential_pairs users_df) \<longrightarrow>
      (\<forall>p. count_list order p = (if p \<in> potential_pairs users_df then 1 else 0)))"
proof (intro conjI impI)
  show "potential_pairs users_df =
     {(min (row_id (users_df ! i)) (row_id (users_df ! j)),
       max (row_id (users_df ! i)) (row_id (users_df ! j))) | i j.
        i < j \<and> j < length users_df \<and> shares_field (users_df ! i) (users_df ! j)}"
    unfolding potential_pairs_ordered ordered_pairs_nth norm_pair_def
    by (intro set_eqI iffI) (clarsimp, blast)+
  show "\<forall>(u1, u2) \<in> potential_pairs users_df. u1 \<le> u2"
    using potential_pairs_ids(3) by blast
next
  assume "visits order (potential_pairs users_df)"
  then show "\<forall>p. count_list order p = (if p \<in> potential_pairs users_df then 1 else 0)"
    by (auto simp: visits_def count_list_distinct)
qed

theorem potential_pairs_exact_witness:
  "visits [(101, 102)] (potential_pairs scenario_users) \<and>
   shares_field (scenario_users ! 0) (scenario_users ! 1) \<and>
   (101, 102) \<in> potential_pairs scenario_users \<and>
   count_list [(101, 102)] (101 :: int, 102 :: int) = 1"
proof -
  have v: "visits [(101, 102)] (potential_pairs scenario_users)" by code_simp
  have s: "shares_field (scenario_users ! 0) (scenario_users ! 1)" by code_simp
  have m: "(101, 102) \<in> potential_pairs scenario_users" by code_simp
  from potential_pairs_exact [of scenario_users "[(101, 102)]"] v m
  have "count_list [(101, 102)] (101 :: int, 102 :: int) = 1" by simp
  with v s m show ?thesis by blast
qed

text \<open>
  Claim C3. Whatever the order in which the candidate pairs are visited,
  \<open>deduplicate_users\<close> returns, the keys of the returned mapping are distinct, the member
  lists together hold exactly the input identifiers, every input identifier is in the
  member list of exactly one entry, and no member list repeats an identifier.
\<close>

theorem deduplicate_users_partition:
  assumes "visits order (potential_pairs users_df)"
  shows "\<exists>count user_groups. deduplicate_users order users_df = Inr (count, user_groups) \<and>
     distinct (map fst user_groups) \<and>
     (\<Union>e \<in> set user_groups. set (snd e)) = row_id ` set users_df \<and>
     (\<forall>uid \<in> row_id ` set users_df. \<exists>!e. e \<in> set user_groups \<and> uid \<in> set (snd e)) \<and>
     (\<forall>e \<in> set user_groups. distinct (snd e))"
proof -
  from dedup_result [OF assms] obtain uf1 where
    inv: "uf_inv uf1" and keys: "fst ` set (parent uf1) = row_id ` set users_df"
    and res: "deduplicate_users order users_df = Inr (length (groups_of uf1), user_groups_of uf1)"
    by blast
  let ?ug = "user_groups_of uf1"
  have sub: "set (snd e) \<subseteq> row_id ` set users_df" if "e \<in> set ?ug" for e
  proof -
    from that have "(fst e, snd e) \<in> set ?ug" by simp
    from user_groups_of_entry [OF this] keys show ?thesis by auto
  qed
  have cover: "\<exists>e. e \<in> set ?ug \<and> uid \<in> set (snd e)" if "uid \<in> row_id ` set users_df" for uid
    using user_groups_of_cover [of uid uf1] that keys by force
  have uniq: "e = e'" if "e \<in> set ?ug" "e' \<in> set ?ug" "uid \<in> set (snd e)" "uid \<in> set (snd e')"
    for e e' uid
  proof -
    from that have "(fst e, snd e) \<in> set ?ug" "(fst e', snd e') \<in> set ?ug" by simp_all
    from user_groups_of_unique [OF this that(3,4)] show ?thesis by (simp add: prod_eq_iff)
  qed
  have un: "(\<Union>e \<in> set ?ug. set (snd e)) = row_id ` set users_df"
    using sub cover by blast
  have ex1: "\<forall>uid \<in> row_id ` set users_df. \<exists>!e. e \<in> set ?ug \<and> uid \<in> set (snd e)"
    using cover uniq by blast
  have dist: "\<forall>e \<in> set ?ug. distinct (snd e)"
  proof
    fix e assume "e \<in> set ?ug"
    then have "(fst e, snd e) \<in> set ?ug" by simp
    from user_groups_of_entry [OF this]
    have "snd e = sorted_list_of_set (set (snd e))" by blast
    then show "distinct (snd e)" by (metis distinct_sorted_list_of_set)
  qed
  from res user_groups_of_keys [of uf1] un ex1 dist show ?thesis by blast
qed

theorem deduplicate_users_partition_witness:
  "visits [(101, 102)] (potential_pairs scenario_users) \<and>
   deduplicate_users [(101, 102)] scenario_users = Inr (2, [(101, [101, 102]), (103, [103])]) \<and>
   distinct (map fst [(101 :: int, [101, 102 :: int]), (103, [103])]) \<and>
   (\<Union>e \<in> set [(101 :: int, [101, 102 :: int]), (103, [103])]. set (snd e)) =
      row_id ` set scenario_users \<and>
   (\<exists>!e. e \<in> set [(101 :: int, [101, 102 :: int]), (103, [103])] \<and> 102 \<in> set (snd e))"
proof -
  have v: "visits [(101, 102)] (potential_pairs scenario_users)" by code_simp
  have r: "deduplicate_users [(101, 102)] scenario_users = Inr (2, [(101, [101, 102]), (103, [103])])"
    by code_simp
  have m: "102 \<in> row_id ` set scenario_users" by (simp add: scenario_users_def)
  from deduplicate_users_partition [OF v] r
  have d: "distinct (map fst [(101 :: int, [101, 102 :: int]), (103, [103])])"
    and u: "(\<Union>e \<in> set [(101 :: int, [101, 102 :: int]), (103, [103])]. set (snd e)) =
      row_id ` set scenario_users"
    and e: "\<forall>uid \<in> row_id ` set scenario_users.
      \<exists>!e. e \<in> set [(101 :: int, [101, 102 :: int]), (103, [103])] \<and> uid \<in> set (snd e)"
    by auto
  from e m have "\<exists>!e. e \<in> set [(101 :: int, [101, 102 :: int]), (103, [103])] \<and> 102 \<in> set (snd e)"
    by (rule bspec)
  with v r d u show ?thesis by blast
qed

text \<open>
  Claim C5. In the returned mapping every key is the minimum of its member list, and
  every member list is non-empty and sorted in ascending order without repetition.
\<close>

theorem deduplicate_users_canonical:
  assumes "visits order (potential_pairs users_df)"
  shows "\<exists>count user_groups. deduplicate_users order users_df = Inr (count, user_groups) \<and>
     (\<forall>(k, members) \<in> set user_groups.
        members \<noteq> [] \<and> k = Min (set members) \<and> sorted members \<and> distinct members)"
proof -
  from dedup_result [OF assms] obtain uf1 where
    res: "deduplicate_users order users_df = Inr (length (groups_of uf1), user_groups_of uf1)"
    by blast
  have "members \<noteq> [] \<and> k = Min (set members) \<and> sorted members \<and> distinct members"
    if "(k, members) \<in> set (user_groups_of uf1)" for k members
  proof -
    from user_groups_of_entry [OF that]
    have m: "members = sorted_list_of_set (set members)" and k: "k = Min (set members)"
      and ne: "set members \<noteq> {}" by blast+
    from m have "sorted members" "distinct members"
      by (metis sorted_sorted_list_of_set, metis distinct_sorted_list_of_set)
    with k ne show ?thesis by auto
  qed
  with res show ?thesis by blast
qed

theorem deduplicate_users_canonical_witness:
  "visits [(101, 102)] (potential_pairs scenario_users) \<and>
   deduplicate_users [(101, 102)] scenario_users = Inr (2, [(101, [101, 102]), (103, [103])]) \<and>
   (101 :: int) = Min (set [101, 102]) \<and> sorted [101, 102 :: int] \<and> distinct [101, 102 :: int] \<and>
   (103 :: int) = Min (set [103]) \<and> sorted [103 :: int]"
proof -
  have v: "visits [(101, 102)] (potential_pairs scenario_users)" by code_simp
  have r: "deduplicate_users [(101, 102)] scenario_users = Inr (2, [(101, [101, 102]), (103, [103])])"
    by code_simp
  from deduplicate_users_canonical [OF v] r
  have a: "\<forall>(k, members) \<in> set [(101 :: int, [101, 102 :: int]), (103, [103])].
      members \<noteq> [] \<and> k = Min (set members) \<and> sorted members \<and> distinct members"
    by auto
  have "(101 :: int, [101, 102 :: int]) \<in> set [(101 :: int, [101, 102 :: int]), (103, [103])]"
    by simp
  with a have 1: "(101 :: int) = Min (set [101, 102]) \<and> sorted [101, 102 :: int] \<and>
                  distinct [101, 102 :: int]"
    by blast
  have "(103 :: int, [103 :: int]) \<in> set [(101 :: int, [101, 102 :: int]), (103, [103])]"
    by simp
  with a have 2: "(103 :: int) = Min (set [103]) \<and> sorted [103 :: int]"
    by blast
  from v r 1 2 show ?thesis by blast
qed

text \<open>
  Claim C6. The returned count is the number of entries of the returned mapping and is at
  most the number of input rows. When the input identifiers are distinct, as the data
  model requires, the count equals the number of rows exactly when the loop of step 5
  made no \<open>union\<close> call.
\<close>

theorem deduplicate_users_count:
  assumes "visits order (potential_pairs users_df)"
  shows "\<exists>count user_groups. deduplicate_users order users_df = Inr (count, user_groups) \<and>
     count = length user_groups \<and> count \<le> length users_df \<and>
     (distinct (map row_id users_df) \<longrightarrow>
        (count = length users_df \<longleftrightarrow> union_calls (user_data users_df) order = []))"
proof -
  from dedup_result [OF assms] obtain uf1 where
    inv: "uf_inv uf1" and keys: "fst ` set (parent uf1) = row_id ` set users_df"
    and rel: "same_rel uf1 = equiv_closure {p \<in> set order. matched (user_data users_df) p}"
    and res: "deduplicate_users order users_df = Inr (length (groups_of uf1), user_groups_of uf1)"
    by blast
  let ?ids = "row_id ` set users_df"
  have len: "length (groups_of uf1) = card (root uf1 ` ?ids)"
    by (simp only: length_groups_of keys)
  have l1: "length (groups_of uf1) = length (user_groups_of uf1)"
    by (simp add: user_groups_of_def)
  have "card (root uf1 ` ?ids) \<le> card ?ids" by (rule card_image_le) simp
  also have "card ?ids \<le> length users_df"
    using card_length [of "map row_id users_df"] by simp
  finally have l2: "length (groups_of uf1) \<le> length users_df" by (simp only: len)
  have l3: "length (groups_of uf1) = length users_df \<longleftrightarrow> union_calls (user_data users_df) order = []"
    if d: "distinct (map row_id users_df)"
  proof -
    from d have cid: "card ?ids = length users_df"
      using distinct_card [of "map row_id users_df"] by simp
    show ?thesis
    proof (cases "union_calls (user_data users_df) order = []")
      case True
      then have e: "{p \<in> set order. matched (user_data users_df) p} = {}"
        by (auto simp: union_calls_def filter_empty_conv)
      have "same_rel uf1 = equiv_closure {}" using rel by (simp only: e)
      then have "same_rel uf1 = Id" by (simp add: equiv_closure_def)
      then have "inj_on (root uf1) ?ids"
        using root_same_rel [OF inv] by (auto intro!: inj_onI)
      then have "card (root uf1 ` ?ids) = card ?ids" by (rule card_image)
      with len cid True show ?thesis by simp
    next
      case False
      then obtain p where p: "p \<in> set order" and m: "matched (user_data users_df) p"
        by (auto simp: union_calls_def filter_empty_conv)
      obtain a b where ab: "p = (a, b)" by (cases p)
      from assms p ab have pp: "(a, b) \<in> potential_pairs users_df" by (simp add: visits_def)
      from potential_pairs_strict [OF d pp] have "a \<noteq> b" by simp
      from potential_pairs_ids(1,2) [OF pp] have a: "a \<in> ?ids" and b: "b \<in> ?ids" .
      from p m ab have "(a, b) \<in> same_rel uf1"
        unfolding rel by (intro equiv_closure_base) simp
      then have "root uf1 a = root uf1 b" by (simp only: root_same_rel [OF inv])
      with a b \<open>a \<noteq> b\<close> have "\<not> inj_on (root uf1) ?ids" by (auto simp: inj_on_def)
      then have "card (root uf1 ` ?ids) \<noteq> card ?ids"
        using eq_card_imp_inj_on [of ?ids "root uf1"] by auto
      with len cid False show ?thesis by simp
    qed
  qed
  from res l1 l2 l3 show ?thesis by blast
qed

theorem deduplicate_users_count_witness:
  "visits [(101, 102)] (potential_pairs scenario_users) \<and>
   distinct (map row_id scenario_users) \<and>
   deduplicate_users [(101, 102)] scenario_users = Inr (2, [(101, [101, 102]), (103, [103])]) \<and>
   length scenario_users = 3 \<and>
   union_calls (user_data scenario_users) [(101, 102)] \<noteq> []"
proof -
  have v: "visits [(101, 102)] (potential_pairs scenario_users)" by code_simp
  have d: "distinct (map row_id scenario_users)" by code_simp
  have r: "deduplicate_users [(101, 102)] scenario_users = Inr (2, [(101, [101, 102]), (103, [103])])"
    by code_simp
  have l: "length scenario_users = 3" by code_simp
  from deduplicate_users_count [OF v] r d l
  have "union_calls (user_data scenario_users) [(101, 102)] \<noteq> []" by auto
  with v d r l show ?thesis by blast
qed

section \<open>Properties of top-customer resolution\<close>

text \<open>
  Claim C7. For non-empty orders, \<open>find_top_customer\<close> returns the members of the group
  of some canonical identifier, sorted ascending, with that identifier's aggregated
  spending passed through \<open>round(x, 2)\<close>; no canonical identifier has a greater
  aggregated spending; and the per-identifier spending is the column sum over the orders
  of that identifier. The float operations are parameters; of the comparison the theorem
  needs that it is a strict weak order, which holds for floats other than NaN. On groups
  \<open>{101: [101, 102]}\<close> with 500 spent under 101 and 300 under 102 the result is
  \<open>([101, 102], 800)\<close>.
\<close>

theorem find_top_customer_spec:
  assumes ne: "orders_df \<noteq> []"
    and irrefl: "\<forall>a. \<not> fgt ops a a"
    and trans: "\<forall>a b c. fgt ops a b \<and> fgt ops b c \<longrightarrow> fgt ops a c"
    and negtrans: "\<forall>a b c. \<not> fgt ops a b \<and> \<not> fgt ops b c \<longrightarrow> \<not> fgt ops a c"
  shows "\<exists>top. find_top_customer ops orders_df user_groups =
                 Inr (sort (group_members user_groups top),
                      round2 ops (aggregated ops orders_df user_groups top)) \<and>
           top \<in> canonical_of user_groups ` user_id ` set orders_df \<and>
           (\<forall>c \<in> canonical_of user_groups ` user_id ` set orders_df.
              \<not> fgt ops (aggregated ops orders_df user_groups c)
                         (aggregated ops orders_df user_groups top)) \<and>
           (\<forall>uid \<in> user_id ` set orders_df.
              map_of (user_spending ops orders_df) uid =
                Some (fsum ops (map paid_price (filter (\<lambda>row. user_id row = uid) orders_df))))"
proof -
  let ?cs = "canonical_spending ops (user_to_canonical user_groups) (user_spending ops orders_df)"
  let ?C = "canonical_of user_groups ` user_id ` set orders_df"
  note entries = canonical_spending_entries [of _ _ ops user_groups orders_df]
  from ne obtain row where "row \<in> set orders_df" by (cases orders_df) auto
  then have "canonical_of user_groups (user_id row) \<in> ?C" by blast
  then have "(canonical_of user_groups (user_id row),
              aggregated ops orders_df user_groups (canonical_of user_groups (user_id row))) \<in> set ?cs"
    by (simp only: entries simp_thms)
  then have "?cs \<noteq> []" by auto
  then obtain first rest where cs: "?cs = first # rest" by (cases ?cs) auto
  let ?m = "max_loop ops first rest"
  have m_in: "?m \<in> set ?cs" unfolding cs by (rule max_loop_in)
  then have "(fst ?m, snd ?m) \<in> set ?cs" by simp
  then have top: "fst ?m \<in> ?C" and val: "snd ?m = aggregated ops orders_df user_groups (fst ?m)"
    by (simp_all only: entries)
  have lookup: "map_of ?cs (fst ?m) = Some (snd ?m)"
    using canonical_spending_distinct [of ops user_groups "user_spending ops orders_df"] m_in
    by simp
  have lookup': "map_of (first # rest) (fst ?m) = Some (snd ?m)"
    using lookup unfolding cs .
  have res: "find_top_customer ops orders_df user_groups =
               Inr (sort (group_members user_groups (fst ?m)),
                    round2 ops (aggregated ops orders_df user_groups (fst ?m)))"
    unfolding find_top_customer_def Let_def cs list.case lookup' option.case
      group_members_def val ..
  have mx: "\<not> fgt ops (aggregated ops orders_df user_groups c)
                       (aggregated ops orders_df user_groups (fst ?m))" if c: "c \<in> ?C" for c
  proof -
    from c have "(c, aggregated ops orders_df user_groups c) \<in> set ?cs"
      by (simp only: entries simp_thms)
    then have "(c, aggregated ops orders_df user_groups c) \<in> set [] \<union> set (first # rest)"
      by (simp add: cs)
    from max_loop_max [of ops "[]" first "(c, aggregated ops orders_df user_groups c)" rest, OF _ _ _ _ this]
      irrefl trans negtrans
    have "\<not> fgt ops (snd (c, aggregated ops orders_df user_groups c)) (snd ?m)"
      by (metis empty_iff empty_set)
    then show ?thesis by (simp add: val)
  qed
  from res top mx user_spending_lookup [of _ orders_df ops] show ?thesis by blast
qed

theorem find_top_customer_spec_witness:
  "[\<lparr>user_id = 101, paid_price = 200\<rparr>, \<lparr>user_id = 102, paid_price = 300\<rparr>,
    \<lparr>user_id = 101, paid_price = 300\<rparr>, \<lparr>user_id = 7, paid_price = 700 :: int\<rparr>] \<noteq> [] \<and>
   find_top_customer whole_ops
     [\<lparr>user_id = 101, paid_price = 200\<rparr>, \<lparr>user_id = 102, paid_price = 300\<rparr>,
      \<lparr>user_id = 101, paid_price = 300\<rparr>, \<lparr>user_id = 7, paid_price = 700\<rparr>]
     [(101, [101, 102])] = Inr ([101, 102], 800) \<and>
   map_of (user_spending whole_ops
     [\<lparr>user_id = 101, paid_price = 200\<rparr>, \<lparr>user_id = 102, paid_price = 300\<rparr>,
      \<lparr>user_id = 101, paid_price = 300\<rparr>, \<lparr>user_id = 7, paid_price = 700\<rparr>]) 101 = Some 500 \<and>
   \<not> fgt whole_ops
        (aggregated whole_ops
           [\<lparr>user_id = 101, paid_price = 200\<rparr>, \<lparr>user_id = 102, paid_price = 300\<rparr>,
            \<lparr>user_id = 101, paid_price = 300\<rparr>, \<lparr>user_id = 7, paid_price = 700\<rparr>]
           [(101, [101, 102])] 7) 800"
proof -
  let ?orders = "[\<lparr>user_id = 101, paid_price = 200\<rparr>, \<lparr>user_id = 102, paid_price = 300\<rparr>,
      \<lparr>user_id = 101, paid_price = 300\<rparr>, \<lparr>user_id = 7, paid_price = 700 :: int\<rparr>]"
  let ?ug = "[(101 :: int, [101, 102 :: int])]"
  have ne: "?orders \<noteq> []" by simp
  have i: "\<forall>a. \<not> fgt whole_ops a a" by (simp add: whole_ops_def)
  have t: "\<forall>a b c. fgt whole_ops a b \<and> fgt whole_ops b c \<longrightarrow> fgt whole_ops a c"
    by (simp add: whole_ops_def)
  have n: "\<forall>a b c. \<not> fgt whole_ops a b \<and> \<not> fgt whole_ops b c \<longrightarrow> \<not> fgt whole_ops a c"
    by (simp add: whole_ops_def)
  have r: "find_top_customer whole_ops ?orders ?ug = Inr ([101, 102], 800)" by code_simp
  have c7: "7 \<in> canonical_of ?ug ` user_id ` set ?orders"
    by (simp add: canonical_of_def)
  have u: "101 \<in> user_id ` set ?orders" by simp
  have s: "fsum whole_ops (map paid_price (filter (\<lambda>row. user_id row = 101) ?orders)) = 500"
    by (simp add: whole_ops_def)
  from find_top_customer_spec [OF ne i t n, of ?ug] obtain top where
    res: "find_top_customer whole_ops ?orders ?ug =
            Inr (sort (group_members ?ug top), round2 whole_ops (aggregated whole_ops ?orders ?ug top))"
    and mx: "\<forall>c \<in> canonical_of ?ug ` user_id ` set ?orders.
              \<not> fgt whole_ops (aggregated whole_ops ?orders ?ug c) (aggregated whole_ops ?orders ?ug top)"
    and sp: "\<forall>uid \<in> user_id ` set ?orders.
              map_of (user_spending whole_ops ?orders) uid =
                Some (fsum whole_ops (map paid_price (filter (\<lambda>row. user_id row = uid) ?orders)))"
    by blast
  from res r have "round2 whole_ops (aggregated whole_ops ?orders ?ug top) = 800" by simp
  then have tot: "aggregated whole_ops ?orders ?ug top = 800" by (simp add: whole_ops_def)
  from mx c7 have "\<not> fgt whole_ops (aggregated whole_ops ?orders ?ug 7) (aggregated whole_ops ?orders ?ug top)"
    by (rule bspec)
  then have m7: "\<not> fgt whole_ops (aggregated whole_ops ?orders ?ug 7) 800" unfolding tot .
  from sp u have "map_of (user_spending whole_ops ?orders) 101 =
                Some (fsum whole_ops (map paid_price (filter (\<lambda>row. user_id row = 101) ?orders)))"
    by (rule bspec)
  then have s101: "map_of (user_spending whole_ops ?orders) 101 = Some 500" unfolding s .
  show ?thesis by (rule conjI [OF ne conjI [OF r conjI [OF s101 m7]]])
qed

text \<open>
  Claim C10. On empty orders \<open>find_top_customer\<close> raises \<open>ValueError\<close> (the \<open>max\<close> of an
  empty dictionary) and returns no value, whatever the groups and the float operations.
\<close>

theorem find_top_customer_empty:
  "find_top_customer ops [] user_groups = Inl ValueError"
  by (simp add: find_top_customer_def user_spending_def canonical_spending_def)

end
